theory Spec2Isabelle
  imports Complex_Main "HOL-Library.Char_ord" "HOL-Library.List_Lexorder"
begin

section \<open>Strings and numbers of the host language\<close>

text \<open>
  A string is a list of code units; the model has the code units below 256 that
  \<^typ>\<open>char\<close> offers. Among them \<^verbatim>\<open>trim\<close> and \<^verbatim>\<open>\s\<close> take tab, line feed,
  vertical tab, form feed, carriage return, space and the no-break space for white space,
  and \<^verbatim>\<open>toLowerCase\<close> maps \<^verbatim>\<open>A\<close> to \<^verbatim>\<open>Z\<close> and the capital letters
  \<^verbatim>\<open>U+00C0\<close> to \<^verbatim>\<open>U+00DE\<close> (the multiplication sign \<^verbatim>\<open>U+00D7\<close> is none) to
  the code unit 32 above. A number is a real: the rounding of IEEE doubles is idealised
  away, \<^verbatim>\<open>NaN\<close> and the infinities do not exist.
\<close>

definition is_ws :: "char \<Rightarrow> bool" where
  "is_ws c \<longleftrightarrow> (of_char c :: nat) \<in> {9, 10, 11, 12, 13, 32, 160}"

definition is_upper :: "char \<Rightarrow> bool" where
  "is_upper c \<longleftrightarrow>
     (let n = (of_char c :: nat)
      in (65 \<le> n \<and> n \<le> 90) \<or> (192 \<le> n \<and> n \<le> 214) \<or> (216 \<le> n \<and> n \<le> 222))"

definition lower_char :: "char \<Rightarrow> char" where
  "lower_char c = (if is_upper c then char_of ((of_char c :: nat) + 32) else c)"

definition toLowerCase :: "string \<Rightarrow> string" where
  "toLowerCase s = map lower_char s"

definition trim :: "string \<Rightarrow> string" where
  "trim s = rev (dropWhile is_ws (rev (dropWhile is_ws s)))"

text \<open>\<^verbatim>\<open>s.split("/")\<close>: the empty string gives one empty segment.\<close>

fun split_slash :: "string \<Rightarrow> string list" where
  "split_slash [] = [[]]"
| "split_slash (c # cs) =
     (if c = CHR ''/'' then [] # split_slash cs
      else (case split_slash cs of [] \<Rightarrow> [[c]] | s # ss \<Rightarrow> (c # s) # ss))"

text \<open>\<^verbatim>\<open>s.replace(/\s+/g, "-")\<close>: every maximal run of white space becomes one hyphen.\<close>

function replace_ws :: "string \<Rightarrow> string" where
  "replace_ws [] = []"
| "replace_ws (c # cs) =
     (if is_ws c then CHR ''-'' # replace_ws (dropWhile is_ws cs) else c # replace_ws cs)"
  by pat_completeness auto
termination
  by (relation "measure length") (auto simp: length_dropWhile_le less_Suc_eq_le)

text \<open>\<^verbatim>\<open>segments.join(".")\<close>\<close>

fun join_dot :: "string list \<Rightarrow> string" where
  "join_dot [] = []"
| "join_dot [s] = s"
| "join_dot (s # t # ts) = s @ CHR ''.'' # join_dot (t # ts)"

definition nameToTokenPath :: "string \<Rightarrow> string" where
  "nameToTokenPath name =
     (let segments = map (\<lambda>seg. replace_ws (toLowerCase (trim seg))) (split_slash name)
      in join_dot (filter (\<lambda>seg. seg \<noteq> []) segments))"

text \<open>\<^verbatim>\<open>Math.round\<close> rounds halves up; \<^verbatim>\<open>n.toString(16)\<close> on an integer.\<close>

definition Math_round :: "real \<Rightarrow> int" where
  "Math_round x = \<lfloor>x + 1 / 2\<rfloor>"

definition hex_digit :: "nat \<Rightarrow> char" where
  "hex_digit d = ''0123456789abcdef'' ! d"

fun toString16_nat :: "nat \<Rightarrow> string" where
  "toString16_nat n =
     (if n < 16 then [hex_digit n] else toString16_nat (n div 16) @ [hex_digit (n mod 16)])"

declare toString16_nat.simps [simp del]

definition toString16 :: "int \<Rightarrow> string" where
  "toString16 n = (if n < 0 then CHR ''-'' # toString16_nat (nat (- n)) else toString16_nat (nat n))"

text \<open>\<^verbatim>\<open>("0" + n.toString(16)).slice(-2)\<close>\<close>

definition pad :: "int \<Rightarrow> string" where
  "pad n = (let s = ''0'' @ toString16 n in drop (length s - 2) s)"

definition rgbaToHex :: "real \<Rightarrow> real \<Rightarrow> real \<Rightarrow> real \<Rightarrow> string" where
  "rgbaToHex r g b a =
     (let R = pad (Math_round (r * 255));
          G = pad (Math_round (g * 255));
          B = pad (Math_round (b * 255))
      in if a \<ge> 1 then CHR ''#'' # R @ G @ B
         else CHR ''#'' # R @ G @ B @ pad (Math_round (a * 255)))"


section \<open>Objects\<close>

text \<open>
  A \<^verbatim>\<open>Record<string, V>\<close> is the list of its own properties in the order
  \<^verbatim>\<open>Object.keys\<close> and \<^verbatim>\<open>JSON.stringify\<close> enumerate them: the keys that are
  array indices (canonical decimal numerals below \<open>2\<^sup>3\<^sup>2 - 1\<close>) first, ascending by
  value, then every other key in the order of creation. Assigning to an existing key
  keeps its place. Only own properties are modelled: a key is never the name of a
  member inherited from \<^verbatim>\<open>Object.prototype\<close>.
\<close>

type_synonym 'v obj = "(string \<times> 'v) list"

definition is_digit :: "char \<Rightarrow> bool" where
  "is_digit c \<longleftrightarrow> 48 \<le> (of_char c :: nat) \<and> (of_char c :: nat) \<le> 57"

definition index_val :: "string \<Rightarrow> int" where
  "index_val k = foldl (\<lambda>n c. 10 * n + (of_char c - 48)) 0 k"

definition is_array_index :: "string \<Rightarrow> bool" where
  "is_array_index k =
     (case k of
        [] \<Rightarrow> False
      | c # cs \<Rightarrow> list_all is_digit k \<and> (if c = CHR ''0'' then cs = [] else True)
                 \<and> index_val k < 4294967295)"

definition obj_get :: "'v obj \<Rightarrow> string \<Rightarrow> 'v option" where
  "obj_get ob k = map_of ob k"

definition obj_keys :: "'v obj \<Rightarrow> string list" where
  "obj_keys ob = map fst ob"

fun obj_replace :: "string \<Rightarrow> 'v \<Rightarrow> 'v obj \<Rightarrow> 'v obj" where
  "obj_replace k v [] = []"
| "obj_replace k v (p # ps) = (if fst p = k then (k, v) # ps else p # obj_replace k v ps)"

fun obj_insert_index :: "string \<Rightarrow> 'v \<Rightarrow> 'v obj \<Rightarrow> 'v obj" where
  "obj_insert_index k v [] = [(k, v)]"
| "obj_insert_index k v (p # ps) =
     (if is_array_index (fst p) \<and> index_val (fst p) < index_val k
      then p # obj_insert_index k v ps else (k, v) # p # ps)"

text \<open>\<^verbatim>\<open>ob[k] = v\<close>\<close>

definition obj_set :: "'v obj \<Rightarrow> string \<Rightarrow> 'v \<Rightarrow> 'v obj" where
  "obj_set ob k v =
     (if k \<in> set (obj_keys ob) then obj_replace k v ob
      else if is_array_index k then obj_insert_index k v ob
      else ob @ [(k, v)])"

section \<open>Data model\<close>

datatype VariableValue =
    VBoolean bool
  | VString string
  | VNumber real
  | VColor real real real "real option"
  | VAlias string

record ModeValue =
  mv_value :: VariableValue
  mv_isAlias :: bool

record Mode =
  mode_id :: string
  mode_name :: string

record Variable =
  var_id :: string
  var_name :: string
  resolvedType :: string
  valuesPerMode :: "ModeValue obj"

record RawCollection =
  col_id :: string
  col_name :: string
  col_modes :: "Mode list"
  col_variables :: "Variable list"

type_synonym rgba = "real \<times> real \<times> real \<times> real"

text \<open>
  \<^verbatim>\<open>TokenValueRaw\<close>: \<^verbatim>\<open>{rgba, hex}\<close>, \<^verbatim>\<open>{value}\<close> or \<^verbatim>\<open>{$ref}\<close>.\<close>

datatype TokenValueRaw =
    RawColor rgba string
  | RawValue real
  | RawRef string

datatype Bucket = color | spacing | radius

type_synonym TokensRaw = "Bucket \<Rightarrow> TokenValueRaw obj obj"

fun bucket_name :: "Bucket \<Rightarrow> string" where
  "bucket_name color = ''color''"
| "bucket_name spacing = ''spacing''"
| "bucket_name radius = ''radius''"

section \<open>Raw value classifier\<close>

definition getAliasVariableId :: "VariableValue \<Rightarrow> string option" where
  "getAliasVariableId v = (case v of VAlias i \<Rightarrow> Some i | _ \<Rightarrow> None)"

text \<open>An empty identifier and an empty token path are falsy, and give no value.\<close>

definition buildTokenValueRaw ::
  "VariableValue \<Rightarrow> bool \<Rightarrow> (string \<rightharpoonup> string) \<Rightarrow> string \<Rightarrow> TokenValueRaw option" where
  "buildTokenValueRaw v isAlias varIdToTokenPath rtype =
     (if isAlias then
        (case getAliasVariableId v of
           None \<Rightarrow> None
         | Some targetId \<Rightarrow>
             (if targetId = [] then None
              else (case varIdToTokenPath targetId of
                      None \<Rightarrow> None
                    | Some tokenPath \<Rightarrow> if tokenPath = [] then None else Some (RawRef tokenPath))))
      else
        (case v of
           VColor r g b ao \<Rightarrow>
             (if rtype = ''COLOR''
              then (let a = (case ao of None \<Rightarrow> 1 | Some x \<Rightarrow> x)
                    in Some (RawColor (r, g, b, a) (rgbaToHex r g b a)))
              else None)
         | VNumber n \<Rightarrow> (if rtype = ''FLOAT'' then Some (RawValue n) else None)
         | _ \<Rightarrow> None))"

section \<open>Alias resolver\<close>

text \<open>An entry of a table is an object, so a value that is present is truthy.\<close>

definition getValueForMode :: "TokenValueRaw obj \<Rightarrow> string \<Rightarrow> TokenValueRaw option" where
  "getValueForMode tokenEntry requestedModeName =
     (case obj_get tokenEntry requestedModeName of
        Some v \<Rightarrow> Some v
      | None \<Rightarrow>
          (let modeKeys = obj_keys tokenEntry
           in if length modeKeys = 1 then obj_get tokenEntry (modeKeys ! 0) else None))"

record ResolutionError =
  err_tokenPath :: string
  err_requestedModeName :: string
  err_reason :: string
  err_chain :: "string list"

datatype Resolved = ResRgba rgba | ResValue real

text \<open>The three mutable arguments of \<^verbatim>\<open>resolveRef\<close>, threaded through the call.\<close>

record trav =
  st_visited :: "string set"
  st_chain :: "string list"
  st_errors :: "ResolutionError list"

definition pathKey :: "Bucket \<Rightarrow> string \<Rightarrow> string \<Rightarrow> string" where
  "pathKey bucket tokenPath requestedModeName =
     bucket_name bucket @ '':'' @ tokenPath @ '':'' @ requestedModeName"

definition push_error :: "string \<Rightarrow> string \<Rightarrow> string \<Rightarrow> string list \<Rightarrow> trav \<Rightarrow> trav" where
  "push_error tokenPath requestedModeName rsn chn st =
     st\<lparr>st_errors := st_errors st @
          [\<lparr>err_tokenPath = tokenPath, err_requestedModeName = requestedModeName,
            err_reason = rsn, err_chain = chn\<rparr>]\<rparr>"

text \<open>\<^verbatim>\<open>visited.delete(pathKey); chain.pop();\<close>\<close>

definition unwind :: "string \<Rightarrow> trav \<Rightarrow> trav" where
  "unwind pk st = st\<lparr>st_visited := st_visited st - {pk}, st_chain := butlast (st_chain st)\<rparr>"

function resolveRef ::
  "string \<Rightarrow> string \<Rightarrow> TokensRaw \<Rightarrow> Bucket \<Rightarrow> trav \<Rightarrow> Resolved option \<times> trav" where
  "resolveRef tokenPath requestedModeName tokensRaw bucket st =
     (if pathKey bucket tokenPath requestedModeName \<in> st_visited st then
        (None, push_error tokenPath requestedModeName ''cycle'' (st_chain st @ [tokenPath]) st)
      else
        (let pk = pathKey bucket tokenPath requestedModeName;
             st1 = st\<lparr>st_visited := insert pk (st_visited st),
                      st_chain := st_chain st @ [tokenPath]\<rparr>
         in case obj_get (tokensRaw bucket) tokenPath of
              None \<Rightarrow>
                (None, unwind pk
                   (push_error tokenPath requestedModeName ''missing token'' (st_chain st1) st1))
            | Some tokenEntry \<Rightarrow>
                (case getValueForMode tokenEntry requestedModeName of
                   None \<Rightarrow>
                     (None, unwind pk
                        (push_error tokenPath requestedModeName ''mode mismatch'' (st_chain st1) st1))
                 | Some (RawRef refPath) \<Rightarrow>
                     (case obj_get (tokensRaw bucket) refPath of
                        None \<Rightarrow>
                          (None, unwind pk
                             (push_error tokenPath requestedModeName ''missing token''
                                (st_chain st1 @ [refPath]) st1))
                      | Some _ \<Rightarrow>
                          (case resolveRef refPath requestedModeName tokensRaw bucket st1 of
                             (resolved, st2) \<Rightarrow> (resolved, unwind pk st2)))
                 | Some (RawColor c h) \<Rightarrow> (Some (ResRgba c), unwind pk st1)
                 | Some (RawValue x) \<Rightarrow> (Some (ResValue x), unwind pk st1))))"
  by pat_completeness auto

termination
proof (relation "measure (\<lambda>(tokenPath, requestedModeName, tokensRaw, bucket, st).
          card ((\<lambda>p. pathKey bucket p requestedModeName) ` set (obj_keys (tokensRaw bucket))
                - st_visited st))", goal_cases)
  case 1
  show ?case by simp
next
  case (2 tokenPath requestedModeName tokensRaw bucket st pk st1 tokenEntry tv refPath e)
  let ?K = "(\<lambda>p. pathKey bucket p requestedModeName) ` set (obj_keys (tokensRaw bucket))"
  have "tokenPath \<in> set (obj_keys (tokensRaw bucket))"
    using 2 by (auto simp: obj_get_def obj_keys_def dest!: map_of_SomeD intro: rev_image_eqI)
  then have "pk \<in> ?K" "pk \<notin> st_visited st"
    using 2 by auto
  then have "?K - insert pk (st_visited st) \<subset> ?K - st_visited st"
    by auto
  then have "card (?K - insert pk (st_visited st)) < card (?K - st_visited st)"
    by (intro psubset_card_mono) auto
  then show ?case using 2 by simp
qed

declare resolveRef.simps [simp del]


section \<open>Collision detector\<close>

record First =
  first_varId :: string
  first_originalName :: string
  first_collectionName :: string

record DuplicateError =
  dup_type :: string
  dup_tokenPath :: string
  dup_bucket :: Bucket
  dup_existingVarId :: string
  dup_newVarId :: string
  dup_existingOriginalName :: string
  dup_newOriginalName :: string
  dup_existingCollectionName :: string
  dup_newCollectionName :: string
  dup_suggestion :: string

text \<open>What the classification pass of \<^verbatim>\<open>buildExportModel\<close> mutates.\<close>

record build =
  b_tokensRaw :: TokensRaw
  b_tokenPathToFirst :: "Bucket \<Rightarrow> (string \<rightharpoonup> First)"
  b_duplicateErrors :: "DuplicateError list"

text \<open>The closure \<^verbatim>\<open>checkCollisionAndAdd\<close>, with the state it writes to.\<close>

definition checkCollisionAndAdd ::
  "Bucket \<Rightarrow> string \<Rightarrow> string \<Rightarrow> string \<Rightarrow> string \<Rightarrow> build \<Rightarrow> bool \<times> build" where
  "checkCollisionAndAdd bucket tokenPath varId originalName collectionName s =
     (case b_tokenPathToFirst s bucket tokenPath of
        Some existing \<Rightarrow>
          (if first_varId existing = varId then (True, s)
           else (False, s\<lparr>b_duplicateErrors := b_duplicateErrors s @
                   [\<lparr>dup_type = ''DuplicateTokenPath'',
                     dup_tokenPath = tokenPath,
                     dup_bucket = bucket,
                     dup_existingVarId = first_varId existing,
                     dup_newVarId = varId,
                     dup_existingOriginalName = first_originalName existing,
                     dup_newOriginalName = originalName,
                     dup_existingCollectionName = first_collectionName existing,
                     dup_newCollectionName = collectionName,
                     dup_suggestion =
                       ''Rename one of the variables or move them into the same collection.''\<rparr>]\<rparr>))
      | None \<Rightarrow>
          (True, s\<lparr>b_tokenPathToFirst := (b_tokenPathToFirst s)
                     (bucket := (b_tokenPathToFirst s bucket)
                        (tokenPath \<mapsto> \<lparr>first_varId = varId, first_originalName = originalName,
                                       first_collectionName = collectionName\<rparr>))\<rparr>))"

section \<open>Classification pass\<close>

text \<open>Per collection: the mode names by mode identifier, and \<^verbatim>\<open>getOutputModeKey\<close>.\<close>

definition modeIdToName :: "RawCollection \<Rightarrow> (string \<rightharpoonup> string)" where
  "modeIdToName col = fold (\<lambda>m t. t(mode_id m \<mapsto> mode_name m)) (col_modes col) Map.empty"

definition getOutputModeKey :: "RawCollection \<Rightarrow> string \<Rightarrow> string" where
  "getOutputModeKey col modeName =
     (if length (col_modes col) = 1 \<and> mode_name (col_modes col ! 0) = ''Mode 1''
         \<and> modeName = ''Mode 1''
      then ''default'' else modeName)"

text \<open>
  The loop over \<^verbatim>\<open>Object.keys(v.valuesPerMode)\<close>, which the source writes out once per
  bucket with the same text; it fills the fresh entry \<^verbatim>\<open>tokensRaw[bucket][tokenPath] = {}\<close>.
\<close>

definition buildEntry ::
  "RawCollection \<Rightarrow> (string \<rightharpoonup> string) \<Rightarrow> Variable \<Rightarrow> TokenValueRaw obj" where
  "buildEntry col varIdToTokenPath v =
     fold (\<lambda>modeId entry.
             case obj_get (valuesPerMode v) modeId of
               None \<Rightarrow> entry
             | Some mv \<Rightarrow>
                 (let modeName = (case modeIdToName col modeId of None \<Rightarrow> modeId | Some n \<Rightarrow> n);
                      outputKey = getOutputModeKey col modeName
                  in case buildTokenValueRaw (mv_value mv) (mv_isAlias mv) varIdToTokenPath
                            (resolvedType v) of
                       None \<Rightarrow> entry
                     | Some tv \<Rightarrow> obj_set entry outputKey tv))
          (obj_keys (valuesPerMode v)) []"

text \<open>
  What the loop body does with a variable routed to \<open>bucket\<close>, the same text for each
  of the three: \<^verbatim>\<open>continue\<close> when \<^verbatim>\<open>checkCollisionAndAdd\<close> returns false, else store
  the entry.
\<close>

definition addToBucket ::
  "Bucket \<Rightarrow> RawCollection \<Rightarrow> (string \<rightharpoonup> string) \<Rightarrow> Variable \<Rightarrow> string \<Rightarrow> build \<Rightarrow> build" where
  "addToBucket bucket col varIdToTokenPath v tokenPath s =
     (case checkCollisionAndAdd bucket tokenPath (var_id v) (var_name v) (col_name col) s of
        (ok, s') \<Rightarrow>
          if ok
          then s'\<lparr>b_tokensRaw := (b_tokensRaw s')
                    (bucket := obj_set (b_tokensRaw s' bucket) tokenPath
                                 (buildEntry col varIdToTokenPath v))\<rparr>
          else s')"

text \<open>\<^verbatim>\<open>s.includes(sub)\<close>\<close>

fun starts_with :: "string \<Rightarrow> string \<Rightarrow> bool" where
  "starts_with s [] = True"
| "starts_with [] (c # cs) = False"
| "starts_with (x # xs) (c # cs) = (x = c \<and> starts_with xs cs)"

fun includes_str :: "string \<Rightarrow> string \<Rightarrow> bool" where
  "includes_str [] sub = (sub = [])"
| "includes_str (x # xs) sub = (starts_with (x # xs) sub \<or> includes_str xs sub)"

text \<open>
  The body of the loop over \<^verbatim>\<open>col.variables\<close>. A variable whose identifier is not in
  the lookup would get the key \<^verbatim>\<open>"undefined"\<close>; the builder fills the lookup from the
  same collections first.
\<close>

definition processVariable ::
  "RawCollection \<Rightarrow> (string \<rightharpoonup> string) \<Rightarrow> Variable \<Rightarrow> build \<Rightarrow> build" where
  "processVariable col varIdToTokenPath v s =
     (let tokenPath = (case varIdToTokenPath (var_id v) of None \<Rightarrow> ''undefined'' | Some p \<Rightarrow> p);
          nameLower = toLowerCase (var_name v)
      in if resolvedType v = ''COLOR'' then addToBucket color col varIdToTokenPath v tokenPath s
         else if resolvedType v = ''FLOAT'' then
           (let colNameLower = toLowerCase (col_name col);
                toSpacing = (if includes_str colNameLower ''spacing'' then True
                             else if includes_str colNameLower ''radius'' then False
                             else includes_str nameLower ''spacing'');
                toRadius = (if includes_str colNameLower ''spacing'' then False
                            else if includes_str colNameLower ''radius'' then True
                            else includes_str nameLower ''radius'')
            in if toSpacing then addToBucket spacing col varIdToTokenPath v tokenPath s
               else if toRadius then addToBucket radius col varIdToTokenPath v tokenPath s
               else s)
         else s)"

text \<open>The first loop of \<^verbatim>\<open>buildExportModel\<close>: a later variable overwrites an identifier.\<close>

definition buildVarIdToTokenPath :: "RawCollection list \<Rightarrow> (string \<rightharpoonup> string)" where
  "buildVarIdToTokenPath collections =
     fold (\<lambda>col t. fold (\<lambda>v t. t(var_id v \<mapsto> nameToTokenPath (var_name v))) (col_variables col) t)
          collections Map.empty"

definition empty_build :: build where
  "empty_build = \<lparr>b_tokensRaw = (\<lambda>b. []), b_tokenPathToFirst = (\<lambda>b. Map.empty),
                  b_duplicateErrors = []\<rparr>"

text \<open>The second loop, over the collections and their variables.\<close>

definition classify :: "RawCollection list \<Rightarrow> build" where
  "classify collections =
     (let varIdToTokenPath = buildVarIdToTokenPath collections
      in fold (\<lambda>col s. fold (processVariable col varIdToTokenPath) (col_variables col) s)
              collections empty_build)"

section \<open>Resolution pass\<close>

text \<open>A cell of the resolved table: \<^verbatim>\<open>null\<close>, a hex string, or the resolver's object.\<close>

datatype TokenValueResolved = ResolvedNull | ResolvedHex string | ResolvedObj Resolved

type_synonym TokensResolved = "Bucket \<Rightarrow> TokenValueResolved obj obj"

definition toCell :: "Bucket \<Rightarrow> Resolved option \<Rightarrow> TokenValueResolved" where
  "toCell bucket resolved =
     (if bucket = color then
        (case resolved of
           Some (ResRgba (r, g, b, a)) \<Rightarrow> ResolvedHex (rgbaToHex r g b a)
         | _ \<Rightarrow> ResolvedNull)
      else (case resolved of None \<Rightarrow> ResolvedNull | Some x \<Rightarrow> ResolvedObj x))"

text \<open>The body of the loop over the mode names: a new visited set and chain, the shared errors.\<close>

definition resolveMode ::
  "Bucket \<Rightarrow> TokensRaw \<Rightarrow> string \<Rightarrow> string
     \<Rightarrow> TokenValueResolved obj \<times> ResolutionError list
     \<Rightarrow> TokenValueResolved obj \<times> ResolutionError list" where
  "resolveMode bucket tokensRaw tokenPath modeName acc =
     (case acc of (entry, errs) \<Rightarrow>
        (case resolveRef tokenPath modeName tokensRaw bucket
                \<lparr>st_visited = {}, st_chain = [], st_errors = errs\<rparr> of
           (resolved, st) \<Rightarrow> (obj_set entry modeName (toCell bucket resolved), st_errors st)))"

text \<open>The body of the loop over the token paths; every key of the raw table has an entry.\<close>

definition resolveToken ::
  "Bucket \<Rightarrow> TokensRaw \<Rightarrow> string
     \<Rightarrow> TokenValueResolved obj obj \<times> ResolutionError list
     \<Rightarrow> TokenValueResolved obj obj \<times> ResolutionError list" where
  "resolveToken bucket tokensRaw tokenPath acc =
     (case acc of (res, errs) \<Rightarrow>
        (case obj_get (tokensRaw bucket) tokenPath of
           None \<Rightarrow> (res, errs)
         | Some rawEntry \<Rightarrow>
             (case fold (resolveMode bucket tokensRaw tokenPath) (sort (obj_keys rawEntry)) ([], errs) of
                (entry, errs') \<Rightarrow> (obj_set res tokenPath entry, errs'))))"

text \<open>The loops over the token paths of a bucket and over the three buckets, in this order.\<close>

definition resolveBucket ::
  "TokensRaw \<Rightarrow> Bucket \<Rightarrow> TokensResolved \<times> ResolutionError list
     \<Rightarrow> TokensResolved \<times> ResolutionError list" where
  "resolveBucket tokensRaw bucket acc =
     (case acc of (tokensResolved, errs) \<Rightarrow>
        (case fold (resolveToken bucket tokensRaw) (sort (obj_keys (tokensRaw bucket))) ([], errs) of
           (res, errs') \<Rightarrow> (tokensResolved(bucket := res), errs')))"

definition resolveAll :: "TokensRaw \<Rightarrow> TokensResolved \<times> ResolutionError list" where
  "resolveAll tokensRaw = fold (resolveBucket tokensRaw) [color, spacing, radius] (\<lambda>b. [], [])"

section \<open>Export model\<close>

text \<open>
  \<^verbatim>\<open>sortObjectKeys\<close>: the run-time test for a nested plain object is the type of the
  values here, and \<open>nested\<close> is what the function does to a value: itself one level
  down, or nothing for a leaf (\<^verbatim>\<open>null\<close>, a string, an array). The objects
  \<^verbatim>\<open>{rgba, hex}\<close>, \<^verbatim>\<open>{value}\<close> and \<^verbatim>\<open>{$ref}\<close> at the leaves of the tables are
  values of a datatype, which has no order of keys to sort.
\<close>

definition sortObjectKeys :: "('v \<Rightarrow> 'v) \<Rightarrow> 'v obj \<Rightarrow> 'v obj" where
  "sortObjectKeys nested ob =
     fold (\<lambda>k out. case obj_get ob k of None \<Rightarrow> out | Some v \<Rightarrow> obj_set out k (nested v))
          (sort (obj_keys ob)) []"

text \<open>\<^verbatim>\<open>[...xs].sort(cmp)\<close>, a stable sort.\<close>

fun insert_sorted :: "('a \<Rightarrow> 'a \<Rightarrow> int) \<Rightarrow> 'a \<Rightarrow> 'a list \<Rightarrow> 'a list" where
  "insert_sorted cmp x [] = [x]"
| "insert_sorted cmp x (y # ys) =
     (if cmp x y \<le> 0 then x # y # ys else y # insert_sorted cmp x ys)"

definition sort_with :: "('a \<Rightarrow> 'a \<Rightarrow> int) \<Rightarrow> 'a list \<Rightarrow> 'a list" where
  "sort_with cmp xs = foldr (insert_sorted cmp) xs []"

record CollectionOut =
  out_id :: string
  out_name :: string
  out_modes :: "Mode list"

datatype ExportError = DuplicateTokenPath DuplicateError | ResolutionFailure ResolutionError

text \<open>
  The returned object; \<^verbatim>\<open>meta\<close> is its two fields. Of a table sorted by
  \<^verbatim>\<open>sortObjectKeys\<close> the three buckets are the keys of the outer object.
\<close>

record ExportModel =
  em_exportedAt :: string
  em_pluginVersion :: string
  em_collections :: "CollectionOut list"
  em_tokensRaw :: TokensRaw
  em_tokensResolved :: TokensResolved
  em_errors :: "ExportError list"

definition PLUGIN_VERSION :: string where
  "PLUGIN_VERSION = ''0.1.0''"

text \<open>
  The host supplies what the source reads from its environment: \<open>now\<close> is
  \<^verbatim>\<open>new Date().toISOString()\<close> at the time of the call, \<open>localeCompare\<close> the collation
  of \<^verbatim>\<open>String.prototype.localeCompare\<close>.
\<close>

definition buildExportModel ::
  "string \<Rightarrow> (string \<Rightarrow> string \<Rightarrow> int) \<Rightarrow> RawCollection list \<Rightarrow> ExportModel" where
  "buildExportModel now localeCompare collections =
     (let s = classify collections;
          tokensRaw = b_tokensRaw s;
          duplicateErrors = b_duplicateErrors s
      in case resolveAll tokensRaw of
           (tokensResolved, resolutionErrors) \<Rightarrow>
             \<lparr>em_exportedAt = now,
              em_pluginVersion = PLUGIN_VERSION,
              em_collections =
                map (\<lambda>c. \<lparr>out_id = col_id c, out_name = col_name c,
                          out_modes = sort_with (\<lambda>a b. localeCompare (mode_id a) (mode_id b))
                                        (col_modes c)\<rparr>) collections,
              em_tokensRaw = (\<lambda>b. sortObjectKeys (sortObjectKeys (\<lambda>v. v)) (tokensRaw b)),
              em_tokensResolved = (\<lambda>b. sortObjectKeys (sortObjectKeys (\<lambda>v. v)) (tokensResolved b)),
              em_errors = map DuplicateTokenPath duplicateErrors
                          @ map ResolutionFailure resolutionErrors\<rparr>)"


section \<open>Notions used in the statements\<close>

text \<open>A code unit that the normaliser leaves alone.\<close>

definition clean_char :: "char \<Rightarrow> bool" where
  "clean_char c \<longleftrightarrow> \<not> is_ws c \<and> c \<noteq> CHR ''/'' \<and> lower_char c = c"

definition is_hex_digit :: "char \<Rightarrow> bool" where
  "is_hex_digit c \<longleftrightarrow> c \<in> set ''0123456789abcdef''"


text \<open>
  The token paths on which \<^const>\<open>resolveRef\<close> calls itself, in order: the same tests
  in the same order as the function, with the visited set it passes on.
\<close>

function resolveRef_trace :: "string \<Rightarrow> string \<Rightarrow> TokensRaw \<Rightarrow> Bucket \<Rightarrow> string set \<Rightarrow> string list" where
  "resolveRef_trace tokenPath requestedModeName tokensRaw bucket vis =
     (if pathKey bucket tokenPath requestedModeName \<in> vis then []
      else
        (case obj_get (tokensRaw bucket) tokenPath of
           None \<Rightarrow> []
         | Some tokenEntry \<Rightarrow>
             (case getValueForMode tokenEntry requestedModeName of
                Some (RawRef refPath) \<Rightarrow>
                  (case obj_get (tokensRaw bucket) refPath of
                     None \<Rightarrow> []
                   | Some _ \<Rightarrow>
                       refPath # resolveRef_trace refPath requestedModeName tokensRaw bucket
                                   (insert (pathKey bucket tokenPath requestedModeName) vis))
              | _ \<Rightarrow> [])))"
  by pat_completeness auto
termination
proof (relation "measure (\<lambda>(tokenPath, requestedModeName, tokensRaw, bucket, vis).
          card ((\<lambda>p. pathKey bucket p requestedModeName) ` set (obj_keys (tokensRaw bucket))
                - vis))", goal_cases)
  case 1
  show ?case by simp
next
  case (2 tokenPath requestedModeName tokensRaw bucket vis tokenEntry tv refPath e)
  let ?K = "(\<lambda>p. pathKey bucket p requestedModeName) ` set (obj_keys (tokensRaw bucket))"
  let ?pk = "pathKey bucket tokenPath requestedModeName"
  have "tokenPath \<in> set (obj_keys (tokensRaw bucket))"
    using 2 by (auto simp: obj_get_def obj_keys_def dest!: map_of_SomeD intro: rev_image_eqI)
  then have "?pk \<in> ?K" "?pk \<notin> vis"
    using 2 by auto
  then have "?K - insert ?pk vis \<subset> ?K - vis"
    by auto
  then have "card (?K - insert ?pk vis) < card (?K - vis)"
    by (intro psubset_card_mono) auto
  then show ?case by simp
qed

declare resolveRef_trace.simps [simp del]

text \<open>The state with which a call enters its recursive call.\<close>

definition enter :: "Bucket \<Rightarrow> string \<Rightarrow> string \<Rightarrow> trav \<Rightarrow> trav" where
  "enter bucket p m st =
     st\<lparr>st_visited := insert (pathKey bucket p m) (st_visited st), st_chain := st_chain st @ [p]\<rparr>"

text \<open>
  A cell, an entry and a bucket of the resolved table, each from resolutions that start
  from an empty visited set, an empty chain and no errors.
\<close>

definition resolvedCell :: "Bucket \<Rightarrow> TokensRaw \<Rightarrow> string \<Rightarrow> string \<Rightarrow> TokenValueResolved" where
  "resolvedCell bucket tokensRaw tokenPath modeName =
     toCell bucket (fst (resolveRef tokenPath modeName tokensRaw bucket
                           \<lparr>st_visited = {}, st_chain = [], st_errors = []\<rparr>))"

definition fresh_errors :: "Bucket \<Rightarrow> TokensRaw \<Rightarrow> string \<Rightarrow> string \<Rightarrow> ResolutionError list" where
  "fresh_errors bucket tokensRaw tokenPath modeName =
     st_errors (snd (resolveRef tokenPath modeName tokensRaw bucket
                           \<lparr>st_visited = {}, st_chain = [], st_errors = []\<rparr>))"

definition resolvedEntry :: "Bucket \<Rightarrow> TokensRaw \<Rightarrow> string \<Rightarrow> TokenValueRaw obj \<Rightarrow> TokenValueResolved obj" where
  "resolvedEntry bucket tokensRaw p rawEntry =
     fold (\<lambda>m entry. obj_set entry m (resolvedCell bucket tokensRaw p m)) (sort (obj_keys rawEntry)) []"

definition resolvedTable :: "Bucket \<Rightarrow> TokensRaw \<Rightarrow> TokenValueResolved obj obj" where
  "resolvedTable bucket tokensRaw =
     fold (\<lambda>p res. case obj_get (tokensRaw bucket) p of
                      None \<Rightarrow> res
                    | Some rawEntry \<Rightarrow> obj_set res p (resolvedEntry bucket tokensRaw p rawEntry))
          (sort (obj_keys (tokensRaw bucket))) []"

text \<open>
  Two colour tables for the examples: in the first \<open>a\<close> and \<open>b\<close> alias each other and
  \<open>c\<close> aliases \<open>a\<close>; the second differs only in \<open>a\<close>, which is a literal.
\<close>

definition table_cyclic :: TokensRaw where
  "table_cyclic = (\<lambda>bk. if bk = color then
      [(''a'', [(''Light'', RawRef ''b'')]),
       (''b'', [(''Light'', RawRef ''a'')]),
       (''c'', [(''Light'', RawRef ''a'')]),
       (''d'', [(''Light'', RawColor (1, 1, 1, 1) ''#ffffff'')])] else [])"

definition table_acyclic :: TokensRaw where
  "table_acyclic = (\<lambda>bk. if bk = color then
      [(''a'', [(''Light'', RawColor (0, 0, 0, 1) ''#000000'')]),
       (''b'', [(''Light'', RawRef ''a'')]),
       (''c'', [(''Light'', RawRef ''a'')]),
       (''d'', [(''Light'', RawColor (1, 1, 1, 1) ''#ffffff'')])] else [])"

text \<open>
  The snapshot of the concrete scenario: one collection with the mode \<^verbatim>\<open>Light\<close>, the
  colour \<^verbatim>\<open>Accent/Primary/100\<close> and \<^verbatim>\<open>Button/Main\<close>, an alias of it; and the raw
  colour table it is classified into.
\<close>

definition scenario :: "string \<Rightarrow> string \<Rightarrow> string \<Rightarrow> string \<Rightarrow> string \<Rightarrow> RawCollection list" where
  "scenario cid cname mid v1 v2 =
     [\<lparr>col_id = cid, col_name = cname,
       col_modes = [\<lparr>mode_id = mid, mode_name = ''Light''\<rparr>],
       col_variables =
         [\<lparr>var_id = v1, var_name = ''Accent/Primary/100'', resolvedType = ''COLOR'',
            valuesPerMode = [(mid, \<lparr>mv_value = VColor 0.88 0.95 1 (Some 1), mv_isAlias = False\<rparr>)]\<rparr>,
          \<lparr>var_id = v2, var_name = ''Button/Main'', resolvedType = ''COLOR'',
            valuesPerMode = [(mid, \<lparr>mv_value = VAlias v1, mv_isAlias = True\<rparr>)]\<rparr>]\<rparr>]"

definition scenario_table :: TokensRaw where
  "scenario_table = (\<lambda>b. [(''accent.primary.100'', [(''Light'', RawColor (0.88, 0.95, 1, 1) ''#e0f2ff'')]),
              (''button.main'', [(''Light'', RawRef ''accent.primary.100'')])])"

text \<open>
  The snapshot of the collision scenario: two collections, each with a colour named
  \<^verbatim>\<open>Surface/1\<close>; and the error the second one gets.
\<close>

definition surface_1_brand :: Variable where
  "surface_1_brand =
     \<lparr>var_id = ''VariableID:1:2'', var_name = ''Surface/1'', resolvedType = ''COLOR'',
      valuesPerMode = [(''1:0'', \<lparr>mv_value = VColor 1 1 1 None, mv_isAlias = False\<rparr>)]\<rparr>"

definition surface_1_legacy :: Variable where
  "surface_1_legacy =
     \<lparr>var_id = ''VariableID:2:2'', var_name = ''Surface/1'', resolvedType = ''COLOR'',
      valuesPerMode = [(''2:0'', \<lparr>mv_value = VColor 0 0 0 None, mv_isAlias = False\<rparr>)]\<rparr>"

definition surface_brand :: RawCollection where
  "surface_brand =
     \<lparr>col_id = ''VariableCollectionId:1:0'', col_name = ''Brand'',
      col_modes = [\<lparr>mode_id = ''1:0'', mode_name = ''Light''\<rparr>],
      col_variables = [surface_1_brand]\<rparr>"

definition surface_legacy :: RawCollection where
  "surface_legacy =
     \<lparr>col_id = ''VariableCollectionId:2:0'', col_name = ''Legacy'',
      col_modes = [\<lparr>mode_id = ''2:0'', mode_name = ''Light''\<rparr>],
      col_variables = [surface_1_legacy]\<rparr>"

definition snapshot_surface :: "RawCollection list" where
  "snapshot_surface = [surface_brand, surface_legacy]"

definition surface_duplicate :: DuplicateError where
  "surface_duplicate =
     \<lparr>dup_type = ''DuplicateTokenPath'', dup_tokenPath = ''surface.1'', dup_bucket = color,
      dup_existingVarId = ''VariableID:1:2'', dup_newVarId = ''VariableID:2:2'',
      dup_existingOriginalName = ''Surface/1'', dup_newOriginalName = ''Surface/1'',
      dup_existingCollectionName = ''Brand'', dup_newCollectionName = ''Legacy'',
      dup_suggestion = ''Rename one of the variables or move them into the same collection.''\<rparr>"

text \<open>
  Reading a field of an entry of \<^verbatim>\<open>errors\<close>: \<open>None\<close> where that kind of entry has
  no such field.
\<close>

definition error_tokenPath :: "ExportError \<Rightarrow> string option" where
  "error_tokenPath e =
     (case e of DuplicateTokenPath d \<Rightarrow> Some (dup_tokenPath d)
              | ResolutionFailure r \<Rightarrow> Some (err_tokenPath r))"

definition error_requestedModeName :: "ExportError \<Rightarrow> string option" where
  "error_requestedModeName e =
     (case e of DuplicateTokenPath d \<Rightarrow> None
              | ResolutionFailure r \<Rightarrow> Some (err_requestedModeName r))"

definition error_chain :: "ExportError \<Rightarrow> string list option" where
  "error_chain e =
     (case e of DuplicateTokenPath d \<Rightarrow> None
              | ResolutionFailure r \<Rightarrow> Some (err_chain r))"

text \<open>A snapshot in which the colours \<^verbatim>\<open>A\<close> and \<^verbatim>\<open>B\<close> alias each other.\<close>

definition snapshot_cycle :: "RawCollection list" where
  "snapshot_cycle =
     [\<lparr>col_id = ''VariableCollectionId:3:0'', col_name = ''Colors'',
       col_modes = [\<lparr>mode_id = ''3:0'', mode_name = ''Light''\<rparr>],
       col_variables =
         [\<lparr>var_id = ''VariableID:3:1'', var_name = ''A'', resolvedType = ''COLOR'',
            valuesPerMode = [(''3:0'', \<lparr>mv_value = VAlias ''VariableID:3:2'', mv_isAlias = True\<rparr>)]\<rparr>,
          \<lparr>var_id = ''VariableID:3:2'', var_name = ''B'', resolvedType = ''COLOR'',
            valuesPerMode = [(''3:0'', \<lparr>mv_value = VAlias ''VariableID:3:1'', mv_isAlias = True\<rparr>)]\<rparr>]\<rparr>]"

text \<open>What holds of an error that a resolution started at \<open>p\<close> in mode \<open>m\<close> appends.\<close>

definition raised_by :: "string list \<Rightarrow> string \<Rightarrow> string \<Rightarrow> ResolutionError \<Rightarrow> bool" where
  "raised_by pre p m e \<longleftrightarrow>
     err_requestedModeName e = m
     \<and> err_reason e \<in> set [''cycle'', ''missing token'', ''mode mismatch'']
     \<and> (\<exists>rest. err_chain e = pre @ p # rest \<and> err_tokenPath e \<in> set (p # rest))"

text \<open>An error of the resolution pass comes from a pair of the raw table.\<close>

definition from_table :: "TokensRaw \<Rightarrow> ResolutionError \<Rightarrow> bool" where
  "from_table tokensRaw e \<longleftrightarrow>
     err_reason e \<in> set [''cycle'', ''missing token'', ''mode mismatch'']
     \<and> err_tokenPath e \<in> set (err_chain e)
     \<and> (\<exists>bucket rawEntry.
           obj_get (tokensRaw bucket) (hd (err_chain e)) = Some rawEntry
           \<and> err_requestedModeName e \<in> set (obj_keys rawEntry))"

text \<open>
  The order in which an object built by \<^const>\<open>sortObjectKeys\<close> lists its keys: no key
  twice, the array indices first and ascending by value, then the other keys, ascending.
\<close>

definition key_order :: "string list \<Rightarrow> bool" where
  "key_order ks \<longleftrightarrow>
     distinct ks
     \<and> ks = filter is_array_index ks @ filter (\<lambda>k. \<not> is_array_index k) ks
     \<and> sorted (map index_val (filter is_array_index ks))
     \<and> sorted_wrt (<) (filter (\<lambda>k. \<not> is_array_index k) ks)"

text \<open>The part of it that every object keeps under assignment.\<close>

definition own_keys :: "string list \<Rightarrow> bool" where
  "own_keys ks \<longleftrightarrow>
     distinct ks
     \<and> ks = filter is_array_index ks @ filter (\<lambda>k. \<not> is_array_index k) ks
     \<and> sorted (map index_val (filter is_array_index ks))"

text \<open>
  A snapshot with a collection \<^verbatim>\<open>Spacing\<close> whose variables are named by numbers, and
  two aliases of them.
\<close>

definition snapshot_steps :: "RawCollection list" where
  "snapshot_steps =
     [\<lparr>col_id = ''VariableCollectionId:4:0'', col_name = ''Spacing'',
       col_modes = [\<lparr>mode_id = ''4:0'', mode_name = ''Mode 1''\<rparr>],
       col_variables =
         [\<lparr>var_id = ''VariableID:4:1'', var_name = ''4'', resolvedType = ''FLOAT'',
            valuesPerMode = [(''4:0'', \<lparr>mv_value = VNumber 4, mv_isAlias = False\<rparr>)]\<rparr>,
          \<lparr>var_id = ''VariableID:4:2'', var_name = ''8'', resolvedType = ''FLOAT'',
            valuesPerMode = [(''4:0'', \<lparr>mv_value = VNumber 8, mv_isAlias = False\<rparr>)]\<rparr>,
          \<lparr>var_id = ''VariableID:4:3'', var_name = ''16'', resolvedType = ''FLOAT'',
            valuesPerMode = [(''4:0'', \<lparr>mv_value = VNumber 16, mv_isAlias = False\<rparr>)]\<rparr>,
          \<lparr>var_id = ''VariableID:4:4'', var_name = ''Gutter/Wide'', resolvedType = ''FLOAT'',
            valuesPerMode = [(''4:0'', \<lparr>mv_value = VAlias ''VariableID:4:3'', mv_isAlias = True\<rparr>)]\<rparr>,
          \<lparr>var_id = ''VariableID:4:5'', var_name = ''Gutter/Narrow'', resolvedType = ''FLOAT'',
            valuesPerMode = [(''4:0'', \<lparr>mv_value = VAlias ''VariableID:4:1'', mv_isAlias = True\<rparr>)]\<rparr>]\<rparr>]"

text \<open>The value of a decimal digit.\<close>

definition digit_val :: "char \<Rightarrow> int" where
  "digit_val c = of_char c - 48"



section \<open>The path normaliser\<close>

lemma of_char_lower_char:
  "(of_char (lower_char c) :: nat) = (if is_upper c then of_char c + 32 else of_char c)"
  by (auto simp: lower_char_def is_upper_def Let_def)

lemma not_upper_lower_char: "\<not> is_upper (lower_char c)"
proof (cases "is_upper c")
  case True
  then have "(of_char (lower_char c) :: nat) = of_char c + 32" by (simp add: of_char_lower_char)
  with True show ?thesis
    unfolding is_upper_def [of "lower_char c"] Let_def by (auto simp: is_upper_def Let_def)
next
  case False
  then show ?thesis by (simp add: lower_char_def)
qed

lemma lower_char_idem: "lower_char (lower_char c) = lower_char c"
  using not_upper_lower_char [of c] by (simp add: lower_char_def [of "lower_char c"])

lemma lower_char_slash: "lower_char c = CHR ''/'' \<Longrightarrow> c = CHR ''/''"
proof (cases "is_upper c")
  case True
  assume a: "lower_char c = CHR ''/''"
  have "(of_char (lower_char c) :: nat) = 47" by (simp add: a)
  with True show ?thesis by (simp add: of_char_lower_char is_upper_def Let_def)
next
  case False
  assume a: "lower_char c = CHR ''/''"
  from False have "lower_char c = c" by (simp add: lower_char_def)
  with a show ?thesis by simp
qed

lemma clean_dot: "clean_char (CHR ''.'')" and clean_hyphen: "clean_char (CHR ''-'')"
  by (simp_all add: clean_char_def is_ws_def lower_char_def is_upper_def)

lemma split_slash_no_slash: "seg \<in> set (split_slash s) \<Longrightarrow> CHR ''/'' \<notin> set seg"
  by (induction s arbitrary: seg) (auto split: list.splits if_splits)

lemma split_slash_single: "CHR ''/'' \<notin> set s \<Longrightarrow> split_slash s = [s]"
  by (induction s) auto

lemma set_trim: "set (trim s) \<subseteq> set s"
  unfolding trim_def by (metis set_dropWhileD set_rev subsetI)

lemma dropWhile_none: "\<forall>c\<in>set s. \<not> P c \<Longrightarrow> dropWhile P s = s"
  by (cases s) auto

lemma trim_clean: "\<forall>c\<in>set s. \<not> is_ws c \<Longrightarrow> trim s = s"
  by (simp add: trim_def dropWhile_none)

lemma set_replace_ws:
  "c \<in> set (replace_ws s) \<Longrightarrow> c = CHR ''-'' \<or> (c \<in> set s \<and> \<not> is_ws c)"
  by (induction s rule: replace_ws.induct) (auto split: if_splits dest: set_dropWhileD)

lemma replace_ws_clean: "\<forall>c\<in>set s. \<not> is_ws c \<Longrightarrow> replace_ws s = s"
  by (induction s) auto

lemma set_join_dot: "c \<in> set (join_dot ss) \<Longrightarrow> c = CHR ''.'' \<or> (\<exists>s\<in>set ss. c \<in> set s)"
  by (induction ss rule: join_dot.induct) auto

lemma segment_clean:
  assumes "seg \<in> set (split_slash name)" and "c \<in> set (replace_ws (toLowerCase (trim seg)))"
  shows "clean_char c"
proof -
  from set_replace_ws [OF assms(2)] show ?thesis
  proof
    assume "c = CHR ''-''" then show ?thesis by (simp add: clean_hyphen)
  next
    assume h: "c \<in> set (toLowerCase (trim seg)) \<and> \<not> is_ws c"
    then obtain d where d: "d \<in> set (trim seg)" "c = lower_char d"
      by (auto simp: toLowerCase_def)
    have "d \<noteq> CHR ''/''"
      using d(1) set_trim [of seg] split_slash_no_slash [OF assms(1)] by auto
    then have "c \<noteq> CHR ''/''" using d(2) lower_char_slash [of d] by auto
    moreover have "lower_char c = c" by (simp add: d(2) lower_char_idem)
    ultimately show ?thesis using h by (simp add: clean_char_def)
  qed
qed

lemma nameToTokenPath_clean: "c \<in> set (nameToTokenPath name) \<Longrightarrow> clean_char c"
  unfolding nameToTokenPath_def Let_def
  by (auto dest!: set_join_dot simp: clean_dot intro: segment_clean)

lemma nameToTokenPath_fixed:
  assumes "\<forall>c\<in>set s. clean_char c"
  shows "nameToTokenPath s = s"
proof -
  have 1: "split_slash s = [s]"
    using assms by (intro split_slash_single) (auto simp: clean_char_def)
  have 2: "trim s = s" using assms by (intro trim_clean) (auto simp: clean_char_def)
  have 3: "toLowerCase s = s"
    using assms by (auto simp: toLowerCase_def clean_char_def intro: map_idI)
  have 4: "replace_ws s = s" using assms by (intro replace_ws_clean) (auto simp: clean_char_def)
  show ?thesis by (simp add: nameToTokenPath_def 1 2 3 4)
qed

text \<open>
  Claim C9. The path normaliser is a total function (\<^const>\<open>replace_ws\<close>, its only
  recursion that is not structural, has its termination proof), and it is idempotent:
  normalising a normalised path gives it back. The output has no white space, no slash
  and no upper-case letter left.
\<close>

theorem nameToTokenPath_idempotent:
  "nameToTokenPath (nameToTokenPath name) = nameToTokenPath name
   \<and> list_all clean_char (nameToTokenPath name)"
proof
  show "nameToTokenPath (nameToTokenPath name) = nameToTokenPath name"
    by (rule nameToTokenPath_fixed) (simp add: nameToTokenPath_clean)
  show "list_all clean_char (nameToTokenPath name)"
    by (simp add: list_all_iff nameToTokenPath_clean)
qed

theorem nameToTokenPath_idempotent_witness:
  "nameToTokenPath (nameToTokenPath '' Accent  Blue / /Primary/100/'')
     = nameToTokenPath '' Accent  Blue / /Primary/100/''
   \<and> nameToTokenPath '' Accent  Blue / /Primary/100/'' = ''accent-blue.primary.100''"
proof -
  have "nameToTokenPath '' Accent  Blue / /Primary/100/'' = ''accent-blue.primary.100''"
    by code_simp
  with nameToTokenPath_idempotent [of "'' Accent  Blue / /Primary/100/''"]
  show ?thesis by blast
qed

section \<open>Hex encoding of a literal colour\<close>

lemma hex_digit_ok: "d < 16 \<Longrightarrow> is_hex_digit (hex_digit d)"
  unfolding hex_digit_def is_hex_digit_def by (rule nth_mem) simp

lemma toString16_nat_not_Nil: "toString16_nat n \<noteq> []"
  by (subst toString16_nat.simps) simp

lemma toString16_not_Nil: "toString16 n \<noteq> []"
  by (simp add: toString16_def toString16_nat_not_Nil)

lemma pad_length: "length (pad n) = 2"
proof -
  have "2 \<le> length (''0'' @ toString16 n)"
    using toString16_not_Nil [of n] by (cases "toString16 n") simp_all
  then show ?thesis by (simp add: pad_def Let_def)
qed

lemma toString16_nat_small: "n < 16 \<Longrightarrow> toString16_nat n = [hex_digit n]"
  by (subst toString16_nat.simps) simp

lemma toString16_nat_byte:
  "16 \<le> n \<Longrightarrow> n < 256 \<Longrightarrow> toString16_nat n = [hex_digit (n div 16), hex_digit (n mod 16)]"
  by (subst toString16_nat.simps) (simp add: toString16_nat_small)

lemma pad_byte:
  assumes "0 \<le> n" "n \<le> 255"
  shows "pad n = [hex_digit (nat n div 16), hex_digit (nat n mod 16)]"
proof (cases "nat n < 16")
  case True
  then have "hex_digit (nat n div 16) = CHR ''0''" by (simp add: hex_digit_def)
  with True assms show ?thesis
    by (simp add: pad_def toString16_def toString16_nat_small)
next
  case False
  with assms have "16 \<le> nat n" "nat n < 256" by auto
  with assms show ?thesis
    by (simp add: pad_def toString16_def toString16_nat_byte)
qed

lemma pad_byte_hex: "0 \<le> n \<Longrightarrow> n \<le> 255 \<Longrightarrow> list_all is_hex_digit (pad n)"
  by (simp add: pad_byte hex_digit_ok)

lemma Math_round_channel:
  assumes "0 \<le> x" "x \<le> 1"
  shows "0 \<le> Math_round (x * 255)" "Math_round (x * 255) \<le> 255"
proof -
  have "0 \<le> x * 255 + 1 / 2" using assms by simp
  then show "0 \<le> Math_round (x * 255)" unfolding Math_round_def by (simp only: zero_le_floor)
  have "x * 255 + 1 / 2 < 256" using assms by simp
  then have "\<lfloor>x * 255 + 1 / 2\<rfloor> < 256" by (simp only: floor_less_iff of_int_numeral)
  then show "Math_round (x * 255) \<le> 255" unfolding Math_round_def by simp
qed

lemma channel_hex: "0 \<le> x \<Longrightarrow> x \<le> 1 \<Longrightarrow> list_all is_hex_digit (pad (Math_round (x * 255)))"
  by (simp add: pad_byte_hex Math_round_channel)

text \<open>
  Claim C7. A literal colour of declared type \<^verbatim>\<open>COLOR\<close> with \<open>r\<close>, \<open>g\<close>, \<open>b\<close> in
  \<open>[0, 1]\<close> and an optional \<open>a\<close> (1 when absent) is classified as a colour literal whose
  hex string is \<^verbatim>\<open>#\<close> followed by two hex digits per channel, with a pair for alpha
  appended exactly when \<open>a < 1\<close>: 7 characters for an opaque colour, 9 otherwise.
\<close>

theorem color_literal_hex:
  assumes "0 \<le> r" "r \<le> 1" "0 \<le> g" "g \<le> 1" "0 \<le> b" "b \<le> 1"
    and "a = (case ao of None \<Rightarrow> 1 | Some x \<Rightarrow> x)"
  shows "buildTokenValueRaw (VColor r g b ao) False varIdToTokenPath ''COLOR''
           = Some (RawColor (r, g, b, a) (rgbaToHex r g b a))
       \<and> rgbaToHex r g b a =
           CHR ''#'' # pad (Math_round (r * 255)) @ pad (Math_round (g * 255))
             @ pad (Math_round (b * 255)) @ (if a < 1 then pad (Math_round (a * 255)) else [])
       \<and> length (pad (Math_round (r * 255))) = 2 \<and> list_all is_hex_digit (pad (Math_round (r * 255)))
       \<and> length (pad (Math_round (g * 255))) = 2 \<and> list_all is_hex_digit (pad (Math_round (g * 255)))
       \<and> length (pad (Math_round (b * 255))) = 2 \<and> list_all is_hex_digit (pad (Math_round (b * 255)))
       \<and> length (pad (Math_round (a * 255))) = 2
       \<and> (if 0 \<le> a \<and> a < 1 then list_all is_hex_digit (pad (Math_round (a * 255))) else True)
       \<and> length (rgbaToHex r g b a) = (if a < 1 then 9 else 7)"
proof -
  have 1: "buildTokenValueRaw (VColor r g b ao) False varIdToTokenPath ''COLOR''
           = Some (RawColor (r, g, b, a) (rgbaToHex r g b a))"
    by (simp add: buildTokenValueRaw_def Let_def assms(7))
  have 2: "rgbaToHex r g b a =
           CHR ''#'' # pad (Math_round (r * 255)) @ pad (Math_round (g * 255))
             @ pad (Math_round (b * 255)) @ (if a < 1 then pad (Math_round (a * 255)) else [])"
    by (simp add: rgbaToHex_def Let_def)
  have 3: "length (rgbaToHex r g b a) = (if a < 1 then 9 else 7)"
    by (simp add: 2 pad_length)
  have 4: "0 \<le> a \<and> a < 1 \<Longrightarrow> list_all is_hex_digit (pad (Math_round (a * 255)))"
    by (simp add: channel_hex)
  show ?thesis
    using 1 2 3 4 assms(1-6) by (simp add: pad_length channel_hex)
qed

theorem color_literal_hex_witness:
  "buildTokenValueRaw (VColor 0.88 0.95 1 None) False Map.empty ''COLOR''
     = Some (RawColor (0.88, 0.95, 1, 1) ''#e0f2ff'')
   \<and> length (rgbaToHex 0.88 0.95 1 1) = 7
   \<and> buildTokenValueRaw (VColor 0.88 0.95 1 (Some 0.5)) False Map.empty ''COLOR''
     = Some (RawColor (0.88, 0.95, 1, 0.5) ''#e0f2ff80'')
   \<and> length (rgbaToHex 0.88 0.95 1 0.5) = 9"
proof -
  have e1: "rgbaToHex 0.88 0.95 1 1 = ''#e0f2ff''" by code_simp
  have e2: "rgbaToHex 0.88 0.95 1 0.5 = ''#e0f2ff80''" by code_simp
  have "(0::real) \<le> 0.88" "(0.88::real) \<le> 1" "(0::real) \<le> 0.95" "(0.95::real) \<le> 1"
       "(0::real) \<le> 1" "(1::real) \<le> 1"
    by simp_all
  note h = this
  have a1: "(1::real) = (case (None :: real option) of None \<Rightarrow> 1 | Some x \<Rightarrow> x)" by simp
  have a2: "(0.5::real) = (case Some 0.5 of None \<Rightarrow> 1 | Some x \<Rightarrow> x)" by simp
  from color_literal_hex [OF h a1, of Map.empty]
  have A1: "buildTokenValueRaw (VColor 0.88 0.95 1 None) False Map.empty ''COLOR''
              = Some (RawColor (0.88, 0.95, 1, 1) (rgbaToHex 0.88 0.95 1 1))"
    and B1: "length (rgbaToHex 0.88 0.95 1 1) = (if (1::real) < 1 then 9 else 7)"
    by blast+
  from color_literal_hex [OF h a2, of Map.empty]
  have A2: "buildTokenValueRaw (VColor 0.88 0.95 1 (Some 0.5)) False Map.empty ''COLOR''
              = Some (RawColor (0.88, 0.95, 1, 0.5) (rgbaToHex 0.88 0.95 1 0.5))"
    and B2: "length (rgbaToHex 0.88 0.95 1 0.5) = (if (0.5::real) < 1 then 9 else 7)"
    by blast+
  from B1 have C1: "length (rgbaToHex 0.88 0.95 1 1) = 7" by simp
  from B2 have C2: "length (rgbaToHex 0.88 0.95 1 0.5) = 9" by simp
  from A1 A2 C1 C2 show ?thesis unfolding e1 e2 by (intro conjI)
qed

section \<open>Properties of objects\<close>

lemma obj_get_Some_key: "obj_get ob k = Some v \<Longrightarrow> k \<in> set (obj_keys ob)"
  by (auto simp: obj_get_def obj_keys_def dest: map_of_SomeD intro: rev_image_eqI)

lemma obj_keys_replace: "obj_keys (obj_replace k v ob) = obj_keys ob"
  by (induction ob) (auto simp: obj_keys_def)

lemma set_obj_keys_insert_index:
  "set (obj_keys (obj_insert_index k v ob)) = insert k (set (obj_keys ob))"
  by (induction ob) (auto simp: obj_keys_def)

lemma set_obj_keys_set: "set (obj_keys (obj_set ob k v)) = insert k (set (obj_keys ob))"
  by (auto simp: obj_set_def obj_keys_replace set_obj_keys_insert_index) (auto simp: obj_keys_def)

lemma obj_get_replace:
  "obj_get (obj_replace k v ob) k' = (if k' = k \<and> k \<in> set (obj_keys ob) then Some v else obj_get ob k')"
  by (induction ob) (force simp: obj_get_def obj_keys_def)+

lemma obj_get_insert_index:
  "k \<notin> set (obj_keys ob) \<Longrightarrow>
   obj_get (obj_insert_index k v ob) k' = (if k' = k then Some v else obj_get ob k')"
  by (induction ob) (auto simp: obj_get_def obj_keys_def)

lemma obj_get_Nil [simp]: "obj_get [] k = None"
  by (simp add: obj_get_def)

lemma obj_keys_Nil [simp]: "obj_keys [] = []"
  by (simp add: obj_keys_def)

lemma obj_get_None_iff: "obj_get ob k = None \<longleftrightarrow> k \<notin> set (obj_keys ob)"
  by (simp add: obj_get_def obj_keys_def map_of_eq_None_iff)

lemma obj_get_append:
  "k \<notin> set (obj_keys ob) \<Longrightarrow>
   obj_get (ob @ [(k, v)]) k' = (if k' = k then Some v else obj_get ob k')"
  using obj_get_None_iff [of ob k] by (auto simp: obj_get_def map_add_def split: option.splits)

lemma obj_get_set: "obj_get (obj_set ob k v) k' = (if k' = k then Some v else obj_get ob k')"
  by (simp add: obj_set_def obj_get_replace obj_get_insert_index obj_get_append)

lemma distinct_insert_index:
  "k \<notin> set (obj_keys ob) \<Longrightarrow> distinct (obj_keys ob) \<Longrightarrow> distinct (obj_keys (obj_insert_index k v ob))"
proof (induction ob)
  case Nil
  then show ?case by (simp add: obj_keys_def)
next
  case (Cons p ps)
  have "fst p \<notin> set (obj_keys (obj_insert_index k v ps))"
    using Cons.prems by (auto simp: set_obj_keys_insert_index) (auto simp: obj_keys_def)
  with Cons show ?case by (auto simp: obj_keys_def)
qed

lemma fold_set_keys:
  "set (obj_keys (fold (\<lambda>k out. case obj_get ob k of None \<Rightarrow> out | Some v \<Rightarrow> obj_set out k (f v)) ks acc))
     = set (obj_keys acc) \<union> (set ks \<inter> set (obj_keys ob))"
proof (induction ks arbitrary: acc)
  case Nil
  then show ?case by simp
next
  case (Cons k ks)
  show ?case
  proof (cases "obj_get ob k")
    case None
    then have "k \<notin> set (obj_keys ob)" by (simp add: obj_get_None_iff)
    with None Cons.IH [of acc] show ?thesis by auto
  next
    case (Some v)
    then have "k \<in> set (obj_keys ob)" by (rule obj_get_Some_key)
    with Some Cons.IH [of "obj_set acc k (f v)"] show ?thesis
      by (auto simp: set_obj_keys_set)
  qed
qed

lemma set_keys_sortObjectKeys: "set (obj_keys (sortObjectKeys f ob)) = set (obj_keys ob)"
  by (auto simp: sortObjectKeys_def fold_set_keys)

lemma fold_get:
  "obj_get (fold (\<lambda>k out. case obj_get ob k of None \<Rightarrow> out | Some v \<Rightarrow> obj_set out k (f v)) ks acc) k'
     = (if k' \<in> set ks \<and> k' \<in> set (obj_keys ob) then map_option f (obj_get ob k') else obj_get acc k')"
proof (induction ks arbitrary: acc)
  case Nil
  then show ?case by simp
next
  case (Cons k ks)
  show ?case
  proof (cases "obj_get ob k")
    case None
    then have "k \<notin> set (obj_keys ob)" by (simp add: obj_get_None_iff)
    with None Cons show ?thesis by auto
  next
    case (Some v)
    then have "k \<in> set (obj_keys ob)" by (rule obj_get_Some_key)
    with Some Cons show ?thesis
      by (auto simp: obj_get_set)
  qed
qed

lemma obj_get_sortObjectKeys:
  "obj_get (sortObjectKeys f ob) k = map_option f (obj_get ob k)"
  using obj_get_None_iff [of ob k]
  by (auto simp: sortObjectKeys_def fold_get)

section \<open>The alias resolver\<close>

lemma pathKey_inj: "pathKey bucket p m = pathKey bucket q m \<longleftrightarrow> p = q"
  by (simp add: pathKey_def)

lemma unwind_push_error:
  "unwind pk (push_error p m rsn chn st) = push_error p m rsn chn (unwind pk st)"
  by (simp add: unwind_def push_error_def)

lemma unwind_enter':
  "pk \<notin> st_visited st \<Longrightarrow>
   unwind pk (st\<lparr>st_visited := insert pk (st_visited st), st_chain := st_chain st @ [p]\<rparr>) = st"
  by (simp add: unwind_def)

lemma resolveRef_cycle:
  "pathKey bucket p m \<in> st_visited st \<Longrightarrow>
   resolveRef p m tokensRaw bucket st = (None, push_error p m ''cycle'' (st_chain st @ [p]) st)"
  by (subst resolveRef.simps) simp

lemma resolveRef_missing:
  "pathKey bucket p m \<notin> st_visited st \<Longrightarrow> obj_get (tokensRaw bucket) p = None \<Longrightarrow>
   resolveRef p m tokensRaw bucket st
     = (None, push_error p m ''missing token'' (st_chain st @ [p]) st)"
  by (subst resolveRef.simps) (simp add: Let_def unwind_push_error unwind_enter')

lemma resolveRef_mismatch:
  "pathKey bucket p m \<notin> st_visited st \<Longrightarrow> obj_get (tokensRaw bucket) p = Some e \<Longrightarrow>
   getValueForMode e m = None \<Longrightarrow>
   resolveRef p m tokensRaw bucket st
     = (None, push_error p m ''mode mismatch'' (st_chain st @ [p]) st)"
  by (subst resolveRef.simps) (simp add: Let_def unwind_push_error unwind_enter')

lemma resolveRef_dangling:
  "pathKey bucket p m \<notin> st_visited st \<Longrightarrow> obj_get (tokensRaw bucket) p = Some e \<Longrightarrow>
   getValueForMode e m = Some (RawRef r) \<Longrightarrow> obj_get (tokensRaw bucket) r = None \<Longrightarrow>
   resolveRef p m tokensRaw bucket st
     = (None, push_error p m ''missing token'' (st_chain st @ [p, r]) st)"
  by (subst resolveRef.simps) (simp add: Let_def unwind_push_error unwind_enter')

lemma resolveRef_alias:
  "pathKey bucket p m \<notin> st_visited st \<Longrightarrow> obj_get (tokensRaw bucket) p = Some e \<Longrightarrow>
   getValueForMode e m = Some (RawRef r) \<Longrightarrow> obj_get (tokensRaw bucket) r = Some e' \<Longrightarrow>
   resolveRef p m tokensRaw bucket st
     = (case resolveRef r m tokensRaw bucket
               (st\<lparr>st_visited := insert (pathKey bucket p m) (st_visited st),
                   st_chain := st_chain st @ [p]\<rparr>) of
          (resolved, st2) \<Rightarrow> (resolved, unwind (pathKey bucket p m) st2))"
  by (subst resolveRef.simps) (simp add: Let_def)

lemma resolveRef_color:
  "pathKey bucket p m \<notin> st_visited st \<Longrightarrow> obj_get (tokensRaw bucket) p = Some e \<Longrightarrow>
   getValueForMode e m = Some (RawColor c h) \<Longrightarrow>
   resolveRef p m tokensRaw bucket st = (Some (ResRgba c), st)"
  by (subst resolveRef.simps) (simp add: Let_def unwind_enter')

lemma resolveRef_value:
  "pathKey bucket p m \<notin> st_visited st \<Longrightarrow> obj_get (tokensRaw bucket) p = Some e \<Longrightarrow>
   getValueForMode e m = Some (RawValue x) \<Longrightarrow>
   resolveRef p m tokensRaw bucket st = (Some (ResValue x), st)"
  by (subst resolveRef.simps) (simp add: Let_def unwind_enter')


lemma resolveRef_induct_cases [case_names cycle missing mismatch dangling follow color number]:
  assumes "\<And>p st. pathKey bucket p m \<in> st_visited st \<Longrightarrow> P p st"
    and "\<And>p st. pathKey bucket p m \<notin> st_visited st \<Longrightarrow> obj_get (tokensRaw bucket) p = None
           \<Longrightarrow> P p st"
    and "\<And>p st e. pathKey bucket p m \<notin> st_visited st \<Longrightarrow> obj_get (tokensRaw bucket) p = Some e
           \<Longrightarrow> getValueForMode e m = None \<Longrightarrow> P p st"
    and "\<And>p st e r. pathKey bucket p m \<notin> st_visited st \<Longrightarrow> obj_get (tokensRaw bucket) p = Some e
           \<Longrightarrow> getValueForMode e m = Some (RawRef r) \<Longrightarrow> obj_get (tokensRaw bucket) r = None
           \<Longrightarrow> P p st"
    and "\<And>p st e r e'. pathKey bucket p m \<notin> st_visited st \<Longrightarrow> obj_get (tokensRaw bucket) p = Some e
           \<Longrightarrow> getValueForMode e m = Some (RawRef r) \<Longrightarrow> obj_get (tokensRaw bucket) r = Some e'
           \<Longrightarrow> P r (enter bucket p m st) \<Longrightarrow> P p st"
    and "\<And>p st e c h. pathKey bucket p m \<notin> st_visited st \<Longrightarrow> obj_get (tokensRaw bucket) p = Some e
           \<Longrightarrow> getValueForMode e m = Some (RawColor c h) \<Longrightarrow> P p st"
    and "\<And>p st e x. pathKey bucket p m \<notin> st_visited st \<Longrightarrow> obj_get (tokensRaw bucket) p = Some e
           \<Longrightarrow> getValueForMode e m = Some (RawValue x) \<Longrightarrow> P p st"
  shows "P p st"
proof -
  have "m' = m \<Longrightarrow> T' = tokensRaw \<Longrightarrow> b' = bucket \<Longrightarrow> P p st" for m' T' b'
  proof (induction p m' T' b' st rule: resolveRef.induct)
    case (1 p m' T' b' st)
    note eqs = "1.prems"
    show ?case
    proof (cases "pathKey bucket p m \<in> st_visited st")
      case True
      then show ?thesis by (rule assms(1))
    next
      case nv: False
      show ?thesis
      proof (cases "obj_get (tokensRaw bucket) p")
        case None
        with nv show ?thesis by (rule assms(2))
      next
        case (Some e)
        show ?thesis
        proof (cases "getValueForMode e m")
          case None
          with nv Some show ?thesis by (rule assms(3))
        next
          case tv: (Some v)
          show ?thesis
          proof (cases v)
            case (RawColor c h)
            with nv Some tv show ?thesis by (auto intro: assms(6))
          next
            case (RawValue x)
            with nv Some tv show ?thesis by (auto intro: assms(7))
          next
            case (RawRef r)
            show ?thesis
            proof (cases "obj_get (tokensRaw bucket) r")
              case None
              with nv Some tv RawRef show ?thesis by (auto intro: assms(4))
            next
              case e': (Some e')
              have "P r (enter bucket p m st)"
                unfolding enter_def using nv Some tv RawRef e' eqs
                by (intro "1.IH") auto
              with nv Some tv RawRef e' show ?thesis by (auto intro: assms(5))
            qed
          qed
        qed
      qed
    qed
  qed
  then show ?thesis by simp
qed

lemma resolveRef_alias':
  "pathKey bucket p m \<notin> st_visited st \<Longrightarrow> obj_get (tokensRaw bucket) p = Some e \<Longrightarrow>
   getValueForMode e m = Some (RawRef r) \<Longrightarrow> obj_get (tokensRaw bucket) r = Some e' \<Longrightarrow>
   resolveRef p m tokensRaw bucket st
     = (case resolveRef r m tokensRaw bucket (enter bucket p m st) of
          (resolved, st2) \<Rightarrow> (resolved, unwind (pathKey bucket p m) st2))"
  by (simp add: resolveRef_alias enter_def)

lemma unwind_enter_errors:
  "pathKey bucket p m \<notin> st_visited st \<Longrightarrow>
   unwind (pathKey bucket p m) ((enter bucket p m st)\<lparr>st_errors := es\<rparr>) = st\<lparr>st_errors := es\<rparr>"
  by (simp add: unwind_def enter_def)

text \<open>A call leaves the visited set and the chain as it found them, and only appends errors.\<close>

lemma resolveRef_restores:
  "\<exists>new. snd (resolveRef p m tokensRaw bucket st) = st\<lparr>st_errors := st_errors st @ new\<rparr>"
proof (induction p st rule: resolveRef_induct_cases [where bucket = bucket and m = m and tokensRaw = tokensRaw])
  case (follow p st e r e')
  then obtain new where new:
    "snd (resolveRef r m tokensRaw bucket (enter bucket p m st))
       = (enter bucket p m st)\<lparr>st_errors := st_errors (enter bucket p m st) @ new\<rparr>"
    by blast
  have "snd (resolveRef p m tokensRaw bucket st) = st\<lparr>st_errors := st_errors st @ new\<rparr>"
    using follow(1-4) new
    by (simp add: resolveRef_alias' split_beta unwind_enter_errors) (simp add: enter_def)
  then show ?case by blast
qed (auto simp: resolveRef_cycle resolveRef_missing resolveRef_mismatch resolveRef_dangling
       resolveRef_color resolveRef_value push_error_def intro: exI [of _ "[]"])


lemma enter_simps [simp]:
  "st_visited (enter bucket p m st) = insert (pathKey bucket p m) (st_visited st)"
  "st_chain (enter bucket p m st) = st_chain st @ [p]"
  "st_errors (enter bucket p m st) = st_errors st"
  by (simp_all add: enter_def)

text \<open>The errors already collected pass through a call untouched.\<close>

lemma resolveRef_prepend:
  "resolveRef p m tokensRaw bucket (st\<lparr>st_errors := es @ st_errors st\<rparr>)
     = (case resolveRef p m tokensRaw bucket st of
          (r, st') \<Rightarrow> (r, st'\<lparr>st_errors := es @ st_errors st'\<rparr>))"
proof (induction p st rule: resolveRef_induct_cases [where bucket = bucket and m = m and tokensRaw = tokensRaw])
  case (follow p st e r e')
  have eq: "enter bucket p m (st\<lparr>st_errors := es @ st_errors st\<rparr>)
          = (enter bucket p m st)\<lparr>st_errors := es @ st_errors (enter bucket p m st)\<rparr>"
    by (simp add: enter_def)
  have "resolveRef p m tokensRaw bucket (st\<lparr>st_errors := es @ st_errors st\<rparr>)
          = (case resolveRef r m tokensRaw bucket
                    ((enter bucket p m st)\<lparr>st_errors := es @ st_errors (enter bucket p m st)\<rparr>) of
               (resolved, st2) \<Rightarrow> (resolved, unwind (pathKey bucket p m) st2))"
    using follow(1-4) by (subst resolveRef_alias' [where e = e and r = r and e' = e']) (simp_all only: eq, simp_all)
  also have "\<dots> = (case resolveRef p m tokensRaw bucket st of
          (r, st') \<Rightarrow> (r, st'\<lparr>st_errors := es @ st_errors st'\<rparr>))"
    unfolding follow.IH resolveRef_alias' [where tokensRaw = tokensRaw and bucket = bucket, OF follow(1-4)]
    by (simp add: split_beta unwind_def)
  finally show ?case .
qed (simp_all add: resolveRef_cycle resolveRef_missing resolveRef_mismatch resolveRef_dangling
       resolveRef_color resolveRef_value push_error_def)

text \<open>The chain on entry only prefixes the chains of the errors; the value does not see it.\<close>

section \<open>Bound on the recursion\<close>

lemma resolveRef_trace_follow:
  "pathKey bucket p m \<notin> vis \<Longrightarrow> obj_get (tokensRaw bucket) p = Some e \<Longrightarrow>
   getValueForMode e m = Some (RawRef r) \<Longrightarrow> obj_get (tokensRaw bucket) r = Some e' \<Longrightarrow>
   resolveRef_trace p m tokensRaw bucket vis
     = r # resolveRef_trace r m tokensRaw bucket (insert (pathKey bucket p m) vis)"
  by (subst resolveRef_trace.simps) simp

lemma resolveRef_trace_bound_aux:
  "length (resolveRef_trace p m tokensRaw bucket (st_visited (st :: trav)))
     \<le> card ((\<lambda>q. pathKey bucket q m) ` set (obj_keys (tokensRaw bucket)) - st_visited st)"
proof (induction p st rule: resolveRef_induct_cases [where bucket = bucket and m = m and tokensRaw = tokensRaw])
  case (follow p st e r e')
  let ?K = "(\<lambda>q. pathKey bucket q m) ` set (obj_keys (tokensRaw bucket))"
  let ?pk = "pathKey bucket p m"
  have "?pk \<in> ?K" using follow(2) by (auto dest: obj_get_Some_key)
  with follow(1) have "?K - insert ?pk (st_visited st) \<subset> ?K - st_visited st" by auto
  then have lt: "card (?K - insert ?pk (st_visited st)) < card (?K - st_visited st)"
    by (intro psubset_card_mono) auto
  have "resolveRef_trace p m tokensRaw bucket (st_visited st)
          = r # resolveRef_trace r m tokensRaw bucket (insert ?pk (st_visited st))"
    using follow(1-4) by (rule resolveRef_trace_follow)
  with follow.IH lt show ?case by simp
qed (subst resolveRef_trace.simps, simp)+

lemma resolveRef_trace_le_card:
  "length (resolveRef_trace p m tokensRaw bucket vis)
     \<le> card ((\<lambda>q. pathKey bucket q m) ` set (obj_keys (tokensRaw bucket)) - vis)"
  using resolveRef_trace_bound_aux [of p m tokensRaw bucket
          "\<lparr>st_visited = vis, st_chain = [], st_errors = []\<rparr>"]
  by simp

lemma resolveRef_trace_ConsD:
  assumes "resolveRef_trace p m tokensRaw bucket vis = r # rest"
  shows "\<exists>e e'. pathKey bucket p m \<notin> vis \<and> obj_get (tokensRaw bucket) p = Some e
           \<and> getValueForMode e m = Some (RawRef r) \<and> obj_get (tokensRaw bucket) r = Some e'
           \<and> rest = resolveRef_trace r m tokensRaw bucket (insert (pathKey bucket p m) vis)"
  using assms
  by (subst (asm) resolveRef_trace.simps)
     (auto split: if_splits option.splits TokenValueRaw.splits)

text \<open>
  Claim C5. \<^const>\<open>resolveRef\<close> is total: every recursive call is made with a visited
  set that has one more path key of the bucket, which is the measure of its termination
  proof. Started with an empty visited set it calls itself at most as many times as the
  bucket has token paths (from any visited set, at most as many times as the bucket has
  path keys not yet visited), and it returns with the visited set and the chain empty
  again, the errors only appended to. Each element of the list of calls is a call that
  \<^const>\<open>resolveRef\<close> makes, with the visited set extended by the path key of the caller.
\<close>

theorem resolveRef_steps_bound:
  "length (resolveRef_trace tokenPath requestedModeName tokensRaw bucket {})
     \<le> length (obj_keys (tokensRaw bucket))
   \<and> length (resolveRef_trace tokenPath requestedModeName tokensRaw bucket vis)
     \<le> card ((\<lambda>q. pathKey bucket q requestedModeName) ` set (obj_keys (tokensRaw bucket)) - vis)
   \<and> (\<exists>new. snd (resolveRef tokenPath requestedModeName tokensRaw bucket
                      \<lparr>st_visited = {}, st_chain = [], st_errors = errs\<rparr>)
              = \<lparr>st_visited = {}, st_chain = [], st_errors = errs @ new\<rparr>)
   \<and> (resolveRef_trace tokenPath requestedModeName tokensRaw bucket vis = r # rest
        \<longrightarrow> pathKey bucket tokenPath requestedModeName \<notin> vis
          \<and> rest = resolveRef_trace r requestedModeName tokensRaw bucket
                     (insert (pathKey bucket tokenPath requestedModeName) vis)
          \<and> resolveRef tokenPath requestedModeName tokensRaw bucket
                \<lparr>st_visited = vis, st_chain = chn, st_errors = errs\<rparr>
              = (case resolveRef r requestedModeName tokensRaw bucket
                        \<lparr>st_visited = insert (pathKey bucket tokenPath requestedModeName) vis,
                         st_chain = chn @ [tokenPath], st_errors = errs\<rparr> of
                   (resolved, st2) \<Rightarrow>
                     (resolved, unwind (pathKey bucket tokenPath requestedModeName) st2)))"
proof (intro conjI impI)
  let ?K = "(\<lambda>q. pathKey bucket q requestedModeName) ` set (obj_keys (tokensRaw bucket))"
  have "length (resolveRef_trace tokenPath requestedModeName tokensRaw bucket {}) \<le> card (?K - {})"
    by (rule resolveRef_trace_le_card)
  also have "\<dots> \<le> card (set (obj_keys (tokensRaw bucket)))"
    by (simp add: card_image_le)
  also have "\<dots> \<le> length (obj_keys (tokensRaw bucket))"
    by (rule card_length)
  finally show "length (resolveRef_trace tokenPath requestedModeName tokensRaw bucket {})
     \<le> length (obj_keys (tokensRaw bucket))" .
  show "length (resolveRef_trace tokenPath requestedModeName tokensRaw bucket vis) \<le> card (?K - vis)"
    by (rule resolveRef_trace_le_card)
  show "\<exists>new. snd (resolveRef tokenPath requestedModeName tokensRaw bucket
                      \<lparr>st_visited = {}, st_chain = [], st_errors = errs\<rparr>)
              = \<lparr>st_visited = {}, st_chain = [], st_errors = errs @ new\<rparr>"
    using resolveRef_restores [of tokenPath requestedModeName tokensRaw bucket
            "\<lparr>st_visited = {}, st_chain = [], st_errors = errs\<rparr>"]
    by simp
next
  assume "resolveRef_trace tokenPath requestedModeName tokensRaw bucket vis = r # rest"
  then obtain e e' where nv: "pathKey bucket tokenPath requestedModeName \<notin> vis"
    and e: "obj_get (tokensRaw bucket) tokenPath = Some e"
    and tv: "getValueForMode e requestedModeName = Some (RawRef r)"
    and e': "obj_get (tokensRaw bucket) r = Some e'"
    and rest: "rest = resolveRef_trace r requestedModeName tokensRaw bucket
                 (insert (pathKey bucket tokenPath requestedModeName) vis)"
    using resolveRef_trace_ConsD by blast
  show "pathKey bucket tokenPath requestedModeName \<notin> vis" by (rule nv)
  show "rest = resolveRef_trace r requestedModeName tokensRaw bucket
                 (insert (pathKey bucket tokenPath requestedModeName) vis)" by (rule rest)
  show "resolveRef tokenPath requestedModeName tokensRaw bucket
                \<lparr>st_visited = vis, st_chain = chn, st_errors = errs\<rparr>
              = (case resolveRef r requestedModeName tokensRaw bucket
                        \<lparr>st_visited = insert (pathKey bucket tokenPath requestedModeName) vis,
                         st_chain = chn @ [tokenPath], st_errors = errs\<rparr> of
                   (resolved, st2) \<Rightarrow>
                     (resolved, unwind (pathKey bucket tokenPath requestedModeName) st2))"
    using nv e tv e'
    by (subst resolveRef_alias [where e = e and r = r and e' = e']) simp_all
qed

theorem resolveRef_steps_bound_witness:
  "resolveRef_trace ''c'' ''Light'' table_cyclic color {} = [''a'', ''b'', ''a'']
   \<and> length (resolveRef_trace ''c'' ''Light'' table_cyclic color {})
       \<le> length (obj_keys (table_cyclic color))"
proof -
  have "resolveRef_trace ''c'' ''Light'' table_cyclic color {} = [''a'', ''b'', ''a'']"
    by code_simp
  with resolveRef_steps_bound [of "''c''" "''Light''" table_cyclic color "{}" "[]"]
  show ?thesis by blast
qed

section \<open>Resolution reads only the entries on its way\<close>

lemma resolveRef_frame:
  assumes agree: "\<And>q. q \<notin> S \<Longrightarrow> obj_get (T' bucket) q = obj_get (T bucket) q"
    and present: "\<And>q. q \<in> S \<Longrightarrow> obj_get (T bucket) q \<noteq> None"
  shows "p \<notin> S \<Longrightarrow> set (resolveRef_trace p m T bucket (st_visited st)) \<inter> S = {} \<Longrightarrow>
         resolveRef p m T' bucket st = resolveRef p m T bucket st"
proof (induction p st rule: resolveRef_induct_cases [where bucket = bucket and m = m and tokensRaw = T])
  case (cycle p st)
  then show ?case by (simp add: resolveRef_cycle)
next
  case (missing p st)
  then show ?case by (simp add: resolveRef_missing agree)
next
  case (mismatch p st e)
  then show ?case by (simp add: resolveRef_mismatch [where e = e] agree)
next
  case (dangling p st e r)
  from dangling(4) present have "r \<notin> S" by blast
  with dangling show ?case by (simp add: resolveRef_dangling [where e = e and r = r] agree)
next
  case (follow p st e r e')
  have tr: "resolveRef_trace p m T bucket (st_visited st)
          = r # resolveRef_trace r m T bucket (insert (pathKey bucket p m) (st_visited st))"
    using follow(1-4) by (rule resolveRef_trace_follow)
  with follow.prems have r: "r \<notin> S"
    and rest: "set (resolveRef_trace r m T bucket (st_visited (enter bucket p m st))) \<inter> S = {}"
    by auto
  have IH: "resolveRef r m T' bucket (enter bucket p m st) = resolveRef r m T bucket (enter bucket p m st)"
    using r rest by (rule follow.IH)
  have "resolveRef p m T' bucket st
          = (case resolveRef r m T' bucket (enter bucket p m st) of
               (resolved, st2) \<Rightarrow> (resolved, unwind (pathKey bucket p m) st2))"
    using follow(1-4) follow.prems(1) r
    by (intro resolveRef_alias' [where e = e and e' = e']) (simp_all add: agree)
  also have "\<dots> = resolveRef p m T bucket st"
    unfolding IH using follow(1-4) by (simp add: resolveRef_alias' [where e = e and e' = e'])
  finally show ?case .
next
  case (color p st e c h)
  then show ?case by (simp add: resolveRef_color [where e = e] agree)
next
  case (number p st e x)
  then show ?case by (simp add: resolveRef_value [where e = e] agree)
qed

section \<open>Mode lookup\<close>

lemma getValueForMode_exact: "obj_get e m = Some v \<Longrightarrow> getValueForMode e m = Some v"
  by (simp add: getValueForMode_def)




section \<open>A cycle of two tokens\<close>

lemma resolveMode_eq:
  "resolveMode bucket tokensRaw p m (entry, errs)
     = (obj_set entry m (toCell bucket
           (fst (resolveRef p m tokensRaw bucket \<lparr>st_visited = {}, st_chain = [], st_errors = []\<rparr>))),
        errs @ st_errors
           (snd (resolveRef p m tokensRaw bucket \<lparr>st_visited = {}, st_chain = [], st_errors = []\<rparr>)))"
  using resolveRef_prepend [of p m tokensRaw bucket errs
          "\<lparr>st_visited = {}, st_chain = [], st_errors = []\<rparr>"]
  by (simp add: resolveMode_def split_beta)

lemma resolveRef_two_cycle:
  assumes "obj_get (tokensRaw bucket) a = Some ea" "getValueForMode ea m = Some (RawRef b)"
    and "obj_get (tokensRaw bucket) b = Some eb" "getValueForMode eb m = Some (RawRef a)"
    and "a \<noteq> b"
  shows "resolveRef a m tokensRaw bucket \<lparr>st_visited = {}, st_chain = [], st_errors = errs\<rparr>
           = (None, \<lparr>st_visited = {}, st_chain = [],
                     st_errors = errs @ [\<lparr>err_tokenPath = a, err_requestedModeName = m,
                                           err_reason = ''cycle'', err_chain = [a, b, a]\<rparr>]\<rparr>)"
proof -
  let ?st0 = "\<lparr>st_visited = {}, st_chain = [], st_errors = errs\<rparr>"
  let ?st1 = "enter bucket a m ?st0"
  let ?st2 = "enter bucket b m ?st1"
  have 3: "resolveRef a m tokensRaw bucket ?st2
             = (None, push_error a m ''cycle'' (st_chain ?st2 @ [a]) ?st2)"
    by (rule resolveRef_cycle) simp
  have nb: "pathKey bucket b m \<notin> st_visited ?st1"
    using assms(5) by (simp add: pathKey_inj)
  have 2: "resolveRef b m tokensRaw bucket ?st1
             = (None, unwind (pathKey bucket b m) (push_error a m ''cycle'' (st_chain ?st2 @ [a]) ?st2))"
    by (subst resolveRef_alias' [where tokensRaw = tokensRaw and bucket = bucket, OF nb assms(3,4,1)])
       (simp add: 3)
  have na: "pathKey bucket a m \<notin> st_visited ?st0" by simp
  have 1: "resolveRef a m tokensRaw bucket ?st0
             = (None, unwind (pathKey bucket a m) (unwind (pathKey bucket b m)
                   (push_error a m ''cycle'' (st_chain ?st2 @ [a]) ?st2)))"
    by (subst resolveRef_alias' [where tokensRaw = tokensRaw and bucket = bucket, OF na assms(1,2,3)])
       (simp add: 2)
  show ?thesis
    unfolding 1 using assms(5)
    by (simp add: unwind_def push_error_def enter_def pathKey_inj)
qed

section \<open>The resolved table\<close>

lemma resolveMode_fresh:
  "resolveMode bucket tokensRaw p m (entry, errs)
     = (obj_set entry m (resolvedCell bucket tokensRaw p m), errs @ fresh_errors bucket tokensRaw p m)"
  by (simp add: resolveMode_eq resolvedCell_def fresh_errors_def)

lemma fst_fold_pair:
  assumes "\<And>x a e. fst (F x (a, e)) = G x a"
  shows "fst (fold F xs (a, e)) = fold G xs a"
proof (induction xs arbitrary: a e)
  case Nil
  show ?case by simp
next
  case (Cons x xs)
  obtain a' e' where eq: "F x (a, e) = (a', e')" by (cases "F x (a, e)")
  with assms [of x a e] have "a' = G x a" by simp
  with eq Cons.IH [of a' e'] show ?case by simp
qed

lemma fst_resolveToken:
  "fst (resolveToken bucket tokensRaw p (res, errs))
     = (case obj_get (tokensRaw bucket) p of
          None \<Rightarrow> res
        | Some rawEntry \<Rightarrow> obj_set res p (resolvedEntry bucket tokensRaw p rawEntry))"
proof (cases "obj_get (tokensRaw bucket) p")
  case None
  then show ?thesis by (simp add: resolveToken_def)
next
  case (Some rawEntry)
  have "fst (fold (resolveMode bucket tokensRaw p) (sort (obj_keys rawEntry)) ([], errs))
          = resolvedEntry bucket tokensRaw p rawEntry"
    unfolding resolvedEntry_def by (rule fst_fold_pair) (simp add: resolveMode_fresh)
  with Some show ?thesis by (simp add: resolveToken_def split_beta)
qed

lemma fst_resolveBucket:
  "fst (resolveBucket tokensRaw bucket (tokensResolved, errs))
     = tokensResolved(bucket := resolvedTable bucket tokensRaw)"
proof -
  have "fst (fold (resolveToken bucket tokensRaw) (sort (obj_keys (tokensRaw bucket))) ([], errs))
          = resolvedTable bucket tokensRaw"
    unfolding resolvedTable_def by (rule fst_fold_pair) (rule fst_resolveToken)
  then show ?thesis by (simp add: resolveBucket_def split_beta)
qed

lemma fst_resolveAll: "fst (resolveAll tokensRaw) bucket = resolvedTable bucket tokensRaw"
proof -
  obtain r1 e1 where 1: "resolveBucket tokensRaw color (\<lambda>b. [], []) = (r1, e1)"
    by (cases "resolveBucket tokensRaw color (\<lambda>b. [], [])")
  obtain r2 e2 where 2: "resolveBucket tokensRaw spacing (r1, e1) = (r2, e2)"
    by (cases "resolveBucket tokensRaw spacing (r1, e1)")
  obtain r3 e3 where 3: "resolveBucket tokensRaw radius (r2, e2) = (r3, e3)"
    by (cases "resolveBucket tokensRaw radius (r2, e2)")
  have "r1 = (\<lambda>b. [])(color := resolvedTable color tokensRaw)"
    using fst_resolveBucket [of tokensRaw color "\<lambda>b. []" "[]"] 1 by simp
  moreover have "r2 = r1(spacing := resolvedTable spacing tokensRaw)"
    using fst_resolveBucket [of tokensRaw spacing r1 e1] 2 by simp
  moreover have "r3 = r2(radius := resolvedTable radius tokensRaw)"
    using fst_resolveBucket [of tokensRaw radius r2 e2] 3 by simp
  moreover have "fst (resolveAll tokensRaw) = r3"
    by (simp add: resolveAll_def 1 2 3)
  ultimately show ?thesis by (cases bucket) simp_all
qed

lemma obj_get_fold_set:
  "obj_get (fold (\<lambda>m entry. obj_set entry m (g m)) ms acc) m'
     = (if m' \<in> set ms then Some (g m') else obj_get acc m')"
  by (induction ms arbitrary: acc) (auto simp: obj_get_set)

lemma set_keys_fold_set:
  "set (obj_keys (fold (\<lambda>m entry. obj_set entry m (g m)) ms acc)) = set (obj_keys acc) \<union> set ms"
  by (induction ms arbitrary: acc) (auto simp: set_obj_keys_set)

lemma obj_get_resolvedEntry:
  "obj_get (resolvedEntry bucket tokensRaw p rawEntry) m
     = (if m \<in> set (obj_keys rawEntry) then Some (resolvedCell bucket tokensRaw p m) else None)"
  by (simp add: resolvedEntry_def obj_get_fold_set)

lemma set_keys_resolvedEntry:
  "set (obj_keys (resolvedEntry bucket tokensRaw p rawEntry)) = set (obj_keys rawEntry)"
  by (simp add: resolvedEntry_def set_keys_fold_set)

lemma obj_get_fold_case:
  "obj_get (fold (\<lambda>k out. case obj_get ob k of None \<Rightarrow> out | Some v \<Rightarrow> obj_set out k (f k v)) ks acc) k'
     = (if k' \<in> set ks \<and> k' \<in> set (obj_keys ob) then map_option (f k') (obj_get ob k') else obj_get acc k')"
proof (induction ks arbitrary: acc)
  case Nil
  then show ?case by simp
next
  case (Cons k ks)
  show ?case
  proof (cases "obj_get ob k")
    case None
    then have "k \<notin> set (obj_keys ob)" by (simp add: obj_get_None_iff)
    with None Cons show ?thesis by auto
  next
    case (Some v)
    then have "k \<in> set (obj_keys ob)" by (rule obj_get_Some_key)
    with Some Cons show ?thesis
      by (auto simp: obj_get_set)
  qed
qed

lemma obj_get_resolvedTable:
  "obj_get (resolvedTable bucket tokensRaw) p
     = map_option (resolvedEntry bucket tokensRaw p) (obj_get (tokensRaw bucket) p)"
  using obj_get_None_iff [of "tokensRaw bucket" p]
  by (auto simp: resolvedTable_def obj_get_fold_case)

lemma set_keys_resolvedTable:
  "set (obj_keys (resolvedTable bucket tokensRaw)) = set (obj_keys (tokensRaw bucket))"
proof -
  have "set (obj_keys (resolvedTable bucket tokensRaw))
          = {p. obj_get (resolvedTable bucket tokensRaw) p \<noteq> None}"
    by (auto simp: obj_get_None_iff)
  also have "\<dots> = {p. obj_get (tokensRaw bucket) p \<noteq> None}"
    by (simp add: obj_get_resolvedTable)
  also have "\<dots> = set (obj_keys (tokensRaw bucket))"
    by (auto simp: obj_get_None_iff)
  finally show ?thesis .
qed

lemma em_tokensRaw_eq:
  "em_tokensRaw (buildExportModel now lc cols) b
     = sortObjectKeys (sortObjectKeys (\<lambda>v. v)) (b_tokensRaw (classify cols) b)"
  by (simp add: buildExportModel_def Let_def split_beta)

lemma em_tokensResolved_eq:
  "em_tokensResolved (buildExportModel now lc cols) b
     = sortObjectKeys (sortObjectKeys (\<lambda>v. v)) (resolvedTable b (b_tokensRaw (classify cols)))"
  by (simp add: buildExportModel_def Let_def split_beta fst_resolveAll)

section \<open>The example snapshots, evaluated\<close>

lemma surface_scenario:
  "em_errors (buildExportModel ''2026-01-01T00:00:00.000Z'' (\<lambda>a b. 0) snapshot_surface)
     = [DuplicateTokenPath surface_duplicate]
   \<and> em_tokensRaw (buildExportModel ''2026-01-01T00:00:00.000Z'' (\<lambda>a b. 0) snapshot_surface) color
     = [(''surface.1'', [(''Light'', RawColor (1, 1, 1, 1) ''#ffffff'')])]
   \<and> em_tokensResolved (buildExportModel ''2026-01-01T00:00:00.000Z'' (\<lambda>a b. 0) snapshot_surface) color
     = [(''surface.1'', [(''Light'', ResolvedHex ''#ffffff'')])]"
  by code_simp

lemma cycle_scenario:
  "em_errors (buildExportModel ''2026-01-01T00:00:00.000Z'' (\<lambda>a b. 0) snapshot_cycle)
     = [ResolutionFailure \<lparr>err_tokenPath = ''a'', err_requestedModeName = ''Light'',
                            err_reason = ''cycle'', err_chain = [''a'', ''b'', ''a'']\<rparr>,
        ResolutionFailure \<lparr>err_tokenPath = ''b'', err_requestedModeName = ''Light'',
                            err_reason = ''cycle'', err_chain = [''b'', ''a'', ''b'']\<rparr>]
   \<and> em_tokensRaw (buildExportModel ''2026-01-01T00:00:00.000Z'' (\<lambda>a b. 0) snapshot_cycle) color
     = [(''a'', [(''Light'', RawRef ''b'')]), (''b'', [(''Light'', RawRef ''a'')])]
   \<and> em_tokensResolved (buildExportModel ''2026-01-01T00:00:00.000Z'' (\<lambda>a b. 0) snapshot_cycle) color
     = [(''a'', [(''Light'', ResolvedNull)]), (''b'', [(''Light'', ResolvedNull)])]"
  by code_simp

lemma steps_keys:
  "obj_keys (em_tokensRaw (buildExportModel ''2026-01-01T00:00:00.000Z'' (\<lambda>a b. 0) snapshot_steps) spacing)
     = [''4'', ''8'', ''16'', ''gutter.narrow'', ''gutter.wide'']"
  unfolding em_tokensRaw_eq by code_simp

lemma steps_scenario:
  "obj_keys (em_tokensRaw (buildExportModel ''2026-01-01T00:00:00.000Z'' (\<lambda>a b. 0) snapshot_steps) spacing)
     = [''4'', ''8'', ''16'', ''gutter.narrow'', ''gutter.wide'']
   \<and> sort (obj_keys (em_tokensRaw (buildExportModel ''2026-01-01T00:00:00.000Z'' (\<lambda>a b. 0) snapshot_steps) spacing))
     = [''16'', ''4'', ''8'', ''gutter.narrow'', ''gutter.wide'']"
  unfolding steps_keys by simp

section \<open>The shape of the resolved table\<close>

lemma cell_of_export:
  "Option.bind (obj_get (em_tokensResolved (buildExportModel now lc cols) b) p) (\<lambda>e. obj_get e m)
     = Option.bind (obj_get (b_tokensRaw (classify cols) b) p)
         (\<lambda>e. if m \<in> set (obj_keys e)
              then Some (resolvedCell b (b_tokensRaw (classify cols)) p m) else None)"
  by (cases "obj_get (b_tokensRaw (classify cols) b) p")
     (simp_all add: em_tokensResolved_eq obj_get_sortObjectKeys obj_get_resolvedTable
        obj_get_resolvedEntry option.map_ident)

text \<open>
  Claim C10. In every bucket the resolved table of the export model has the token paths
  of the raw table, and under each token path the mode names of the raw entry. The cell
  under a token path and a mode name of the raw table is the result of resolving that
  pair from an empty visited set, and a failed resolution gives the cell \<^verbatim>\<open>null\<close>,
  never a missing key.
\<close>

theorem resolved_mirrors_raw:
  "set (obj_keys (em_tokensResolved (buildExportModel now lc cols) b))
     = set (obj_keys (em_tokensRaw (buildExportModel now lc cols) b))
   \<and> map_option (\<lambda>e. set (obj_keys e)) (obj_get (em_tokensResolved (buildExportModel now lc cols) b) p)
     = map_option (\<lambda>e. set (obj_keys e)) (obj_get (em_tokensRaw (buildExportModel now lc cols) b) p)
   \<and> Option.bind (obj_get (em_tokensResolved (buildExportModel now lc cols) b) p) (\<lambda>e. obj_get e m)
     = Option.bind (obj_get (em_tokensRaw (buildExportModel now lc cols) b) p)
         (\<lambda>e. if m \<in> set (obj_keys e)
              then Some (toCell b (fst (resolveRef p m (b_tokensRaw (classify cols)) b
                                          \<lparr>st_visited = {}, st_chain = [], st_errors = []\<rparr>)))
              else None)
   \<and> toCell b None = ResolvedNull"
proof (intro conjI)
  show "set (obj_keys (em_tokensResolved (buildExportModel now lc cols) b))
          = set (obj_keys (em_tokensRaw (buildExportModel now lc cols) b))"
    by (simp add: em_tokensRaw_eq em_tokensResolved_eq set_keys_sortObjectKeys set_keys_resolvedTable)
  show "map_option (\<lambda>e. set (obj_keys e)) (obj_get (em_tokensResolved (buildExportModel now lc cols) b) p)
          = map_option (\<lambda>e. set (obj_keys e)) (obj_get (em_tokensRaw (buildExportModel now lc cols) b) p)"
    by (simp add: em_tokensRaw_eq em_tokensResolved_eq set_keys_sortObjectKeys
          obj_get_sortObjectKeys obj_get_resolvedTable option.map_comp comp_def set_keys_resolvedEntry)
  show "Option.bind (obj_get (em_tokensResolved (buildExportModel now lc cols) b) p) (\<lambda>e. obj_get e m)
     = Option.bind (obj_get (em_tokensRaw (buildExportModel now lc cols) b) p)
         (\<lambda>e. if m \<in> set (obj_keys e)
              then Some (toCell b (fst (resolveRef p m (b_tokensRaw (classify cols)) b
                                          \<lparr>st_visited = {}, st_chain = [], st_errors = []\<rparr>)))
              else None)"
    unfolding cell_of_export
    by (cases "obj_get (b_tokensRaw (classify cols) b) p")
       (simp_all add: em_tokensRaw_eq obj_get_sortObjectKeys set_keys_sortObjectKeys resolvedCell_def)
  show "toCell b None = ResolvedNull"
    by (simp add: toCell_def)
qed

theorem resolved_mirrors_raw_witness:
  "set (obj_keys (em_tokensResolved
          (buildExportModel ''2026-01-01T00:00:00.000Z'' (\<lambda>a b. 0) snapshot_cycle) color))
     = set (obj_keys (em_tokensRaw
          (buildExportModel ''2026-01-01T00:00:00.000Z'' (\<lambda>a b. 0) snapshot_cycle) color))
   \<and> em_tokensRaw (buildExportModel ''2026-01-01T00:00:00.000Z'' (\<lambda>a b. 0) snapshot_cycle) color
     = [(''a'', [(''Light'', RawRef ''b'')]), (''b'', [(''Light'', RawRef ''a'')])]
   \<and> em_tokensResolved (buildExportModel ''2026-01-01T00:00:00.000Z'' (\<lambda>a b. 0) snapshot_cycle) color
     = [(''a'', [(''Light'', ResolvedNull)]), (''b'', [(''Light'', ResolvedNull)])]"
  using resolved_mirrors_raw [of "''2026-01-01T00:00:00.000Z''" "\<lambda>a b. 0" snapshot_cycle color]
    cycle_scenario
  by blast

section \<open>Cycles\<close>

lemma resolveMode_frame:
  assumes "\<And>q. q \<notin> S \<Longrightarrow> obj_get (T' bucket) q = obj_get (T bucket) q"
    and "\<And>q. q \<in> S \<Longrightarrow> obj_get (T bucket) q \<noteq> None"
    and "p \<notin> S" and "set (resolveRef_trace p m T bucket {}) \<inter> S = {}"
  shows "resolveMode bucket T' p m acc = resolveMode bucket T p m acc"
proof -
  obtain entry errs where acc: "acc = (entry, errs)" by (cases acc)
  have "resolveRef p m T' bucket \<lparr>st_visited = {}, st_chain = [], st_errors = errs\<rparr>
          = resolveRef p m T bucket \<lparr>st_visited = {}, st_chain = [], st_errors = errs\<rparr>"
    using assms by (intro resolveRef_frame [where S = S]) simp_all
  then show ?thesis by (simp add: acc resolveMode_def)
qed

lemma resolveMode_two_cycle:
  assumes "obj_get (tokensRaw bucket) a = Some ea" "obj_get ea m = Some (RawRef b)"
    and "obj_get (tokensRaw bucket) b = Some eb" "obj_get eb m = Some (RawRef a)"
    and "a \<noteq> b"
  shows "resolveMode bucket tokensRaw a m (entry, errs)
           = (obj_set entry m ResolvedNull,
              errs @ [\<lparr>err_tokenPath = a, err_requestedModeName = m,
                        err_reason = ''cycle'', err_chain = [a, b, a]\<rparr>])"
proof -
  have "resolveRef a m tokensRaw bucket \<lparr>st_visited = {}, st_chain = [], st_errors = errs\<rparr>
           = (None, \<lparr>st_visited = {}, st_chain = [],
                     st_errors = errs @ [\<lparr>err_tokenPath = a, err_requestedModeName = m,
                                           err_reason = ''cycle'', err_chain = [a, b, a]\<rparr>]\<rparr>)"
    using assms by (intro resolveRef_two_cycle [where ea = ea and eb = eb]) (simp_all add: getValueForMode_exact)
  then show ?thesis by (simp add: resolveMode_def toCell_def)
qed

text \<open>
  Claim C2, as amended. When \<open>a\<close> aliases \<open>b\<close> and \<open>b\<close> aliases \<open>a\<close> in mode \<open>m\<close>,
  resolving \<open>(a, m)\<close> and \<open>(b, m)\<close>, each from a fresh visited set, gives a
  \<^verbatim>\<open>null\<close> cell and one cycle error with the chain \<open>a, b, a\<close> (and \<open>b, a, b\<close>).
  No resolution sees what an earlier one left behind: the errors collected so far pass
  through untouched. And a pair \<open>(p, m')\<close> whose chain of aliases stays clear of \<open>a\<close>
  and \<open>b\<close> has the same cell and the same errors whatever stands in the entries of
  \<open>a\<close> and \<open>b\<close>.
\<close>

theorem cycle_detected:
  assumes "obj_get (tokensRaw bucket) a = Some ea" "obj_get ea m = Some (RawRef b)"
    and "obj_get (tokensRaw bucket) b = Some eb" "obj_get eb m = Some (RawRef a)"
    and "a \<noteq> b"
  shows "resolveMode bucket tokensRaw a m (entry, errs)
           = (obj_set entry m ResolvedNull,
              errs @ [\<lparr>err_tokenPath = a, err_requestedModeName = m,
                        err_reason = ''cycle'', err_chain = [a, b, a]\<rparr>])
       \<and> resolveMode bucket tokensRaw b m (entry, errs)
           = (obj_set entry m ResolvedNull,
              errs @ [\<lparr>err_tokenPath = b, err_requestedModeName = m,
                        err_reason = ''cycle'', err_chain = [b, a, b]\<rparr>])
       \<and> resolveMode bucket tokensRaw p m' (entry, errs)
           = (fst (resolveMode bucket tokensRaw p m' (entry, [])),
              errs @ snd (resolveMode bucket tokensRaw p m' (entry, [])))
       \<and> ((\<forall>q. q \<noteq> a \<longrightarrow> q \<noteq> b \<longrightarrow> obj_get (other bucket) q = obj_get (tokensRaw bucket) q)
            \<longrightarrow> p \<noteq> a \<longrightarrow> p \<noteq> b
            \<longrightarrow> a \<notin> set (resolveRef_trace p m' tokensRaw bucket {})
            \<longrightarrow> b \<notin> set (resolveRef_trace p m' tokensRaw bucket {})
            \<longrightarrow> resolveMode bucket other p m' (entry, errs)
                 = resolveMode bucket tokensRaw p m' (entry, errs))"
proof (intro conjI impI)
  show "resolveMode bucket tokensRaw a m (entry, errs)
           = (obj_set entry m ResolvedNull,
              errs @ [\<lparr>err_tokenPath = a, err_requestedModeName = m,
                        err_reason = ''cycle'', err_chain = [a, b, a]\<rparr>])"
    using assms by (rule resolveMode_two_cycle)
  show "resolveMode bucket tokensRaw b m (entry, errs)
           = (obj_set entry m ResolvedNull,
              errs @ [\<lparr>err_tokenPath = b, err_requestedModeName = m,
                        err_reason = ''cycle'', err_chain = [b, a, b]\<rparr>])"
    using assms(3,4,1,2) assms(5) [symmetric] by (rule resolveMode_two_cycle)
  show "resolveMode bucket tokensRaw p m' (entry, errs)
           = (fst (resolveMode bucket tokensRaw p m' (entry, [])),
              errs @ snd (resolveMode bucket tokensRaw p m' (entry, [])))"
    by (simp add: resolveMode_eq)
next
  assume agree: "\<forall>q. q \<noteq> a \<longrightarrow> q \<noteq> b \<longrightarrow> obj_get (other bucket) q = obj_get (tokensRaw bucket) q"
    and p: "p \<noteq> a" "p \<noteq> b"
    and tr: "a \<notin> set (resolveRef_trace p m' tokensRaw bucket {})"
            "b \<notin> set (resolveRef_trace p m' tokensRaw bucket {})"
  show "resolveMode bucket other p m' (entry, errs) = resolveMode bucket tokensRaw p m' (entry, errs)"
  proof (rule resolveMode_frame [where S = "{a, b}"])
    show "obj_get (other bucket) q = obj_get (tokensRaw bucket) q" if "q \<notin> {a, b}" for q
      using that agree by simp
    show "obj_get (tokensRaw bucket) q \<noteq> None" if "q \<in> {a, b}" for q
      using that assms(1,3) by auto
    show "p \<notin> {a, b}" using p by simp
    show "set (resolveRef_trace p m' tokensRaw bucket {}) \<inter> {a, b} = {}" using tr by simp
  qed
qed

lemma table_agree:
  "\<forall>q. q \<noteq> ''a'' \<longrightarrow> q \<noteq> ''b'' \<longrightarrow> obj_get (table_acyclic color) q = obj_get (table_cyclic color) q"
  by (simp add: table_acyclic_def table_cyclic_def obj_get_def)

theorem cycle_detected_witness:
  "resolveMode color table_cyclic ''a'' ''Light'' ([], [])
     = ([(''Light'', ResolvedNull)],
        [\<lparr>err_tokenPath = ''a'', err_requestedModeName = ''Light'',
          err_reason = ''cycle'', err_chain = [''a'', ''b'', ''a'']\<rparr>])
   \<and> resolveMode color table_cyclic ''b'' ''Light'' ([], [])
     = ([(''Light'', ResolvedNull)],
        [\<lparr>err_tokenPath = ''b'', err_requestedModeName = ''Light'',
          err_reason = ''cycle'', err_chain = [''b'', ''a'', ''b'']\<rparr>])
   \<and> resolveMode color table_acyclic ''d'' ''Light'' ([], [])
     = resolveMode color table_cyclic ''d'' ''Light'' ([], [])"
proof -
  have h: "obj_get (table_cyclic color) ''a'' = Some [(''Light'', RawRef ''b'')]"
          "obj_get [(''Light'', RawRef ''b'')] ''Light'' = Some (RawRef ''b'')"
          "obj_get (table_cyclic color) ''b'' = Some [(''Light'', RawRef ''a'')]"
          "obj_get [(''Light'', RawRef ''a'')] ''Light'' = Some (RawRef ''a'')"
          "''a'' \<noteq> ''b''"
    by (simp_all add: table_cyclic_def obj_get_def)
  have t: "resolveRef_trace ''d'' ''Light'' table_cyclic color {} = []"
    by code_simp
  have s: "obj_set [] ''Light'' ResolvedNull = [(''Light'', ResolvedNull)]"
    by code_simp
  from cycle_detected [where tokensRaw = table_cyclic and bucket = color and entry = "[]"
         and errs = "[]" and p = "''d''" and m' = "''Light''" and other = table_acyclic, OF h]
       table_agree
  show ?thesis by (simp add: t s)
qed

text \<open>
  The claim as stated, for every other pair, fails for a token that aliases into the
  cycle: \<open>c\<close> aliases \<open>a\<close>, and its cell is \<^verbatim>\<open>null\<close> with the cycle and a colour
  without it.
\<close>

theorem cycle_reaches_dependants:
  "obj_get (table_cyclic color) ''a'' = Some [(''Light'', RawRef ''b'')]
   \<and> obj_get (table_cyclic color) ''b'' = Some [(''Light'', RawRef ''a'')]
   \<and> obj_get (table_acyclic color) ''c'' = obj_get (table_cyclic color) ''c''
   \<and> fst (resolveMode color table_cyclic ''c'' ''Light'' ([], [])) = [(''Light'', ResolvedNull)]
   \<and> fst (resolveMode color table_acyclic ''c'' ''Light'' ([], [])) = [(''Light'', ResolvedHex ''#000000'')]"
  by code_simp

section \<open>The concrete scenario\<close>

lemma path1: "nameToTokenPath ''Accent/Primary/100'' = ''accent.primary.100''" by code_simp
lemma path2: "nameToTokenPath ''Button/Main'' = ''button.main''" by code_simp
lemma hex1: "rgbaToHex (22 / 25) (19 / 20) 1 1 = ''#e0f2ff''" by code_simp
lemma idx1: "is_array_index ''accent.primary.100'' = False" by code_simp
lemma idx2: "is_array_index ''button.main'' = False" by code_simp
lemma idx3: "is_array_index ''Light'' = False" by code_simp

lemma scenario_raw:
  assumes "v1 \<noteq> v2" "v1 \<noteq> []"
  shows "b_tokensRaw (classify (scenario cid cname mid v1 v2)) color
           = [(''accent.primary.100'', [(''Light'', RawColor (0.88, 0.95, 1, 1) ''#e0f2ff'')]),
              (''button.main'', [(''Light'', RawRef ''accent.primary.100'')])]"
  using assms
  by (simp add: classify_def scenario_def buildVarIdToTokenPath_def processVariable_def
        addToBucket_def checkCollisionAndAdd_def empty_build_def buildEntry_def
        modeIdToName_def getOutputModeKey_def buildTokenValueRaw_def getAliasVariableId_def
        obj_get_def obj_keys_def obj_set_def path1 path2 hex1 idx1 idx2 idx3 Let_def)


lemma resolveRef_bucket_only:
  "T' bucket = T bucket \<Longrightarrow> resolveRef p m T' bucket st = resolveRef p m T bucket st"
  by (rule resolveRef_frame [where S = "{}"]) simp_all

lemma resolvedCell_bucket_only:
  "T' bucket = T bucket \<Longrightarrow> resolvedCell bucket T' p m = resolvedCell bucket T p m"
  by (simp add: resolvedCell_def resolveRef_bucket_only [of T' bucket T])

lemma scenario_cells:
  "resolvedCell color scenario_table ''accent.primary.100'' ''Light'' = ResolvedHex ''#e0f2ff''"
  "resolvedCell color scenario_table ''button.main'' ''Light'' = ResolvedHex ''#e0f2ff''"
  by code_simp+

text \<open>
  Claim C8. For the snapshot with \<^verbatim>\<open>Accent/Primary/100\<close> (a colour, \<^verbatim>\<open>Light\<close> =
  rgba(0.88, 0.95, 1, 1)) and \<^verbatim>\<open>Button/Main\<close> (a colour, \<^verbatim>\<open>Light\<close> an alias of the
  former), whatever the identifiers of the collection, the mode and the two variables (two
  different ones, that of the alias target not empty), the resolved colour table has
  \<^verbatim>\<open>#e0f2ff\<close> under \<^verbatim>\<open>Light\<close> for both \<^verbatim>\<open>accent.primary.100\<close> and
  \<^verbatim>\<open>button.main\<close>.
\<close>

theorem concrete_scenario:
  assumes "v1 \<noteq> v2" "v1 \<noteq> []"
  shows "obj_get (em_tokensResolved (buildExportModel now localeCompare (scenario cid cname mid v1 v2)) color)
           ''accent.primary.100'' = Some [(''Light'', ResolvedHex ''#e0f2ff'')]
       \<and> obj_get (em_tokensResolved (buildExportModel now localeCompare (scenario cid cname mid v1 v2)) color)
           ''button.main'' = Some [(''Light'', ResolvedHex ''#e0f2ff'')]"
proof -
  let ?T = "b_tokensRaw (classify (scenario cid cname mid v1 v2))"
  have T: "?T color = scenario_table color"
    using scenario_raw [OF assms] by (simp add: scenario_table_def)
  have cells: "resolvedCell color ?T p m = resolvedCell color scenario_table p m" for p m
    using T by (rule resolvedCell_bucket_only)
  have s: "obj_set [] ''Light'' v = [(''Light'', v)]" for v :: TokenValueResolved
    by (simp add: obj_set_def obj_keys_def idx3)
  have sorted1: "sortObjectKeys (\<lambda>v. v) [(''Light'', v)] = [(''Light'', v)]" for v :: TokenValueResolved
    by (simp add: sortObjectKeys_def obj_keys_def obj_get_def s)
  have g: "obj_get (scenario_table color) ''accent.primary.100''
             = Some [(''Light'', RawColor (0.88, 0.95, 1, 1) ''#e0f2ff'')]"
          "obj_get (scenario_table color) ''button.main''
             = Some [(''Light'', RawRef ''accent.primary.100'')]"
    by (simp_all add: scenario_table_def obj_get_def)
  have k: "sort (obj_keys [(''Light'', x)]) = [''Light'']" for x :: TokenValueRaw
    by (simp add: obj_keys_def)
  show ?thesis
    by (simp add: em_tokensResolved_eq obj_get_sortObjectKeys obj_get_resolvedTable T cells g
          resolvedEntry_def k s sorted1 scenario_cells)
qed

theorem concrete_scenario_witness:
  "obj_get (em_tokensResolved (buildExportModel ''2026-01-01T00:00:00.000Z'' (\<lambda>a b. 0)
              (scenario ''VariableCollectionId:1:0'' ''Colors'' ''1:0'' ''VariableID:1:2''
                 ''VariableID:1:3'')) color) ''accent.primary.100''
     = Some [(''Light'', ResolvedHex ''#e0f2ff'')]
   \<and> obj_get (em_tokensResolved (buildExportModel ''2026-01-01T00:00:00.000Z'' (\<lambda>a b. 0)
              (scenario ''VariableCollectionId:1:0'' ''Colors'' ''1:0'' ''VariableID:1:2''
                 ''VariableID:1:3'')) color) ''button.main''
     = Some [(''Light'', ResolvedHex ''#e0f2ff'')]"
proof -
  have "''VariableID:1:2'' \<noteq> ''VariableID:1:3''" "''VariableID:1:2'' \<noteq> []"
    by simp_all
  then show ?thesis by (rule concrete_scenario)
qed

section \<open>Collisions\<close>










section \<open>Error entries\<close>

lemma raised_by_deeper:
  "raised_by (pre @ [p]) r m e \<Longrightarrow> raised_by pre p m e"
  unfolding raised_by_def by (elim conjE exE) (intro conjI; simp; metis append_Cons list.set_intros(2) set_ConsD)

lemma resolveRef_errors:
  "\<exists>new. snd (resolveRef p m tokensRaw bucket st) = st\<lparr>st_errors := st_errors st @ new\<rparr>
         \<and> list_all (raised_by (st_chain st) p m) new"
proof (induction p st rule: resolveRef_induct_cases [where bucket = bucket and m = m and tokensRaw = tokensRaw])
  case (cycle p st)
  then show ?case
    by (intro exI [of _ "[\<lparr>err_tokenPath = p, err_requestedModeName = m, err_reason = ''cycle'',
                            err_chain = st_chain st @ [p]\<rparr>]"])
       (simp add: resolveRef_cycle push_error_def raised_by_def)
next
  case (missing p st)
  then show ?case
    by (intro exI [of _ "[\<lparr>err_tokenPath = p, err_requestedModeName = m, err_reason = ''missing token'',
                            err_chain = st_chain st @ [p]\<rparr>]"])
       (simp add: resolveRef_missing push_error_def raised_by_def)
next
  case (mismatch p st e)
  then show ?case
    by (intro exI [of _ "[\<lparr>err_tokenPath = p, err_requestedModeName = m, err_reason = ''mode mismatch'',
                            err_chain = st_chain st @ [p]\<rparr>]"])
       (simp add: resolveRef_mismatch [where e = e] push_error_def raised_by_def)
next
  case (dangling p st e r)
  then show ?case
    by (intro exI [of _ "[\<lparr>err_tokenPath = p, err_requestedModeName = m, err_reason = ''missing token'',
                            err_chain = st_chain st @ [p, r]\<rparr>]"])
       (simp add: resolveRef_dangling [where e = e and r = r] push_error_def raised_by_def)
next
  case (follow p st e r e')
  then obtain new where new:
    "snd (resolveRef r m tokensRaw bucket (enter bucket p m st))
       = (enter bucket p m st)\<lparr>st_errors := st_errors (enter bucket p m st) @ new\<rparr>"
    and all: "list_all (raised_by (st_chain (enter bucket p m st)) r m) new"
    by blast
  have "snd (resolveRef p m tokensRaw bucket st) = st\<lparr>st_errors := st_errors st @ new\<rparr>"
    using follow(1-4) new
    by (simp add: resolveRef_alias' [where e = e and e' = e'] split_beta unwind_enter_errors)
  moreover have "list_all (raised_by (st_chain st) p m) new"
    using all by (auto simp: list_all_iff intro: raised_by_deeper)
  ultimately show ?case by blast
next
  case (color p st e c h)
  then show ?case
    by (intro exI [of _ "[]"]) (simp add: resolveRef_color [where e = e])
next
  case (number p st e x)
  then show ?case
    by (intro exI [of _ "[]"]) (simp add: resolveRef_value [where e = e])
qed

lemma fresh_errors_raised: "list_all (raised_by [] p m) (fresh_errors bucket tokensRaw p m)"
  using resolveRef_errors [of p m tokensRaw bucket "\<lparr>st_visited = {}, st_chain = [], st_errors = []\<rparr>"]
  by (auto simp: fresh_errors_def)


lemma raised_by_from_table:
  assumes "raised_by [] p m e" "obj_get (tokensRaw bucket) p = Some rawEntry" "m \<in> set (obj_keys rawEntry)"
  shows "from_table tokensRaw e"
  using assms unfolding raised_by_def from_table_def
  by (elim conjE exE) (intro conjI exI [of _ bucket] exI [of _ rawEntry]; simp)

lemma snd_fold_inv:
  assumes "\<And>x a e. x \<in> set xs \<Longrightarrow> list_all P e \<Longrightarrow> list_all P (snd (F x (a, e)))"
  shows "list_all P e \<Longrightarrow> list_all P (snd (fold F xs (a, e)))"
  using assms
proof (induction xs arbitrary: a e)
  case Nil
  then show ?case by simp
next
  case (Cons x xs)
  obtain a' e' where eq: "F x (a, e) = (a', e')" by (cases "F x (a, e)")
  have "list_all P e'" using Cons.prems(2) [of x e a] Cons.prems(1) eq by simp
  then have "list_all P (snd (fold F xs (a', e')))"
    by (rule Cons.IH) (simp add: Cons.prems(2))
  with eq show ?case by simp
qed

lemma resolveToken_errors:
  assumes "list_all (from_table tokensRaw) errs"
  shows "list_all (from_table tokensRaw) (snd (resolveToken bucket tokensRaw p (res, errs)))"
proof (cases "obj_get (tokensRaw bucket) p")
  case None
  with assms show ?thesis by (simp add: resolveToken_def)
next
  case (Some rawEntry)
  have "list_all (from_table tokensRaw)
          (snd (fold (resolveMode bucket tokensRaw p) (sort (obj_keys rawEntry)) ([], errs)))"
  proof (rule snd_fold_inv [OF _ assms])
    fix m a e
    assume m: "m \<in> set (sort (obj_keys rawEntry))" and e: "list_all (from_table tokensRaw) e"
    have "list_all (from_table tokensRaw) (fresh_errors bucket tokensRaw p m)"
      using fresh_errors_raised [of p m bucket tokensRaw] m Some
      by (auto simp: list_all_iff intro: raised_by_from_table)
    with e show "list_all (from_table tokensRaw) (snd (resolveMode bucket tokensRaw p m (a, e)))"
      by (simp add: resolveMode_fresh)
  qed
  with Some show ?thesis by (simp add: resolveToken_def split_beta)
qed

lemma resolveBucket_errors:
  assumes "list_all (from_table tokensRaw) errs"
  shows "list_all (from_table tokensRaw) (snd (resolveBucket tokensRaw bucket (res, errs)))"
proof -
  have "list_all (from_table tokensRaw)
          (snd (fold (resolveToken bucket tokensRaw) (sort (obj_keys (tokensRaw bucket))) ([], errs)))"
    by (rule snd_fold_inv [OF _ assms]) (rule resolveToken_errors)
  then show ?thesis by (simp add: resolveBucket_def split_beta)
qed

lemma resolveAll_errors: "list_all (from_table tokensRaw) (snd (resolveAll tokensRaw))"
  unfolding resolveAll_def
  by (rule snd_fold_inv) (auto intro: resolveBucket_errors)

text \<open>The errors of the classification pass.\<close>

lemma addToBucket_errors:
  assumes "list_all (\<lambda>d. dup_existingVarId d \<noteq> dup_newVarId d) (b_duplicateErrors s)"
  shows "list_all (\<lambda>d. dup_existingVarId d \<noteq> dup_newVarId d)
           (b_duplicateErrors (addToBucket bucket col varIdToTokenPath v tokenPath s))"
  using assms
  by (auto simp: addToBucket_def checkCollisionAndAdd_def split: option.splits)

lemma processVariable_errors:
  assumes "list_all (\<lambda>d. dup_existingVarId d \<noteq> dup_newVarId d) (b_duplicateErrors s)"
  shows "list_all (\<lambda>d. dup_existingVarId d \<noteq> dup_newVarId d)
           (b_duplicateErrors (processVariable col varIdToTokenPath v s))"
  using assms by (simp add: processVariable_def Let_def addToBucket_errors)

lemma fold_inv:
  assumes "\<And>x s. P s \<Longrightarrow> P (F x s)"
  shows "P s \<Longrightarrow> P (fold F xs s)"
  by (induction xs arbitrary: s) (simp_all add: assms)

lemma classify_errors:
  "list_all (\<lambda>d. dup_existingVarId d \<noteq> dup_newVarId d) (b_duplicateErrors (classify collections))"
proof -
  let ?P = "\<lambda>s. list_all (\<lambda>d. dup_existingVarId d \<noteq> dup_newVarId d) (b_duplicateErrors s)"
  have inner: "?P (fold (processVariable col t) vs s)" if "?P s" for col t vs s
    using that by (rule fold_inv [rotated]) (rule processVariable_errors)
  have start: "?P empty_build" by (simp add: empty_build_def)
  have "?P (fold (\<lambda>col s. fold (processVariable col t) (col_variables col) s) collections empty_build)"
    for t
    using start by (rule fold_inv [rotated]) (rule inner)
  then show ?thesis by (simp add: classify_def Let_def)
qed

lemma em_errors_eq:
  "em_errors (buildExportModel now localeCompare collections)
     = map DuplicateTokenPath (b_duplicateErrors (classify collections))
       @ map ResolutionFailure (snd (resolveAll (b_tokensRaw (classify collections))))"
  by (simp add: buildExportModel_def Let_def split_beta)

text \<open>
  Claim C6, as amended. An error of the resolution pass (missing token, mode mismatch,
  cycle) has the token path, the requested mode and the chain: the chain starts at the
  token that was being resolved, a token of the raw table of which the requested mode is a
  mode name, and the token path is on the chain. A \<^verbatim>\<open>DuplicateTokenPath\<close> error has the
  token path and the two different variable identifiers, and neither a requested mode nor
  a chain.
\<close>

theorem error_entries:
  "\<forall>e \<in> set (em_errors (buildExportModel now localeCompare collections)).
     (case e of
        DuplicateTokenPath d \<Rightarrow>
          error_tokenPath e = Some (dup_tokenPath d)
          \<and> error_requestedModeName e = None
          \<and> error_chain e = None
          \<and> dup_existingVarId d \<noteq> dup_newVarId d
      | ResolutionFailure r \<Rightarrow>
          error_tokenPath e = Some (err_tokenPath r)
          \<and> error_requestedModeName e = Some (err_requestedModeName r)
          \<and> error_chain e = Some (err_chain r)
          \<and> err_reason r \<in> set [''cycle'', ''missing token'', ''mode mismatch'']
          \<and> err_tokenPath r \<in> set (err_chain r)
          \<and> (\<exists>bucket rawEntry.
                obj_get (b_tokensRaw (classify collections) bucket) (hd (err_chain r)) = Some rawEntry
                \<and> err_requestedModeName r \<in> set (obj_keys rawEntry)))"
proof
  fix e
  assume "e \<in> set (em_errors (buildExportModel now localeCompare collections))"
  then consider d where "e = DuplicateTokenPath d" "d \<in> set (b_duplicateErrors (classify collections))"
    | r where "e = ResolutionFailure r" "r \<in> set (snd (resolveAll (b_tokensRaw (classify collections))))"
    by (auto simp: em_errors_eq)
  then show "case e of
        DuplicateTokenPath d \<Rightarrow>
          error_tokenPath e = Some (dup_tokenPath d)
          \<and> error_requestedModeName e = None
          \<and> error_chain e = None
          \<and> dup_existingVarId d \<noteq> dup_newVarId d
      | ResolutionFailure r \<Rightarrow>
          error_tokenPath e = Some (err_tokenPath r)
          \<and> error_requestedModeName e = Some (err_requestedModeName r)
          \<and> error_chain e = Some (err_chain r)
          \<and> err_reason r \<in> set [''cycle'', ''missing token'', ''mode mismatch'']
          \<and> err_tokenPath r \<in> set (err_chain r)
          \<and> (\<exists>bucket rawEntry.
                obj_get (b_tokensRaw (classify collections) bucket) (hd (err_chain r)) = Some rawEntry
                \<and> err_requestedModeName r \<in> set (obj_keys rawEntry))"
  proof cases
    case 1
    with classify_errors [of collections] show ?thesis
      by (simp add: list_all_iff error_tokenPath_def error_requestedModeName_def error_chain_def)
  next
    case 2
    with resolveAll_errors [of "b_tokensRaw (classify collections)"]
    have "from_table (b_tokensRaw (classify collections)) r" by (simp add: list_all_iff)
    with 2(1) show ?thesis
      unfolding from_table_def
      by (simp add: error_tokenPath_def error_requestedModeName_def error_chain_def)
  qed
qed

theorem error_entries_witness:
  "error_requestedModeName
     (ResolutionFailure \<lparr>err_tokenPath = ''a'', err_requestedModeName = ''Light'',
                          err_reason = ''cycle'', err_chain = [''a'', ''b'', ''a'']\<rparr>) = Some ''Light''
   \<and> error_chain
     (ResolutionFailure \<lparr>err_tokenPath = ''a'', err_requestedModeName = ''Light'',
                          err_reason = ''cycle'', err_chain = [''a'', ''b'', ''a'']\<rparr>)
       = Some [''a'', ''b'', ''a'']
   \<and> error_tokenPath (DuplicateTokenPath surface_duplicate) = Some ''surface.1''
   \<and> error_requestedModeName (DuplicateTokenPath surface_duplicate) = None"
proof -
  let ?r = "\<lparr>err_tokenPath = ''a'', err_requestedModeName = ''Light'',
             err_reason = ''cycle'', err_chain = [''a'', ''b'', ''a'']\<rparr>"
  have "ResolutionFailure ?r
          \<in> set (em_errors (buildExportModel ''2026-01-01T00:00:00.000Z'' (\<lambda>a b. 0) snapshot_cycle))"
    using cycle_scenario by simp
  with error_entries [of "''2026-01-01T00:00:00.000Z''" "\<lambda>a b. 0" snapshot_cycle]
  have 1: "error_requestedModeName (ResolutionFailure ?r) = Some (err_requestedModeName ?r)"
    and 2: "error_chain (ResolutionFailure ?r) = Some (err_chain ?r)"
    by force+
  have "DuplicateTokenPath surface_duplicate
          \<in> set (em_errors (buildExportModel ''2026-01-01T00:00:00.000Z'' (\<lambda>a b. 0) snapshot_surface))"
    using surface_scenario by simp
  with error_entries [of "''2026-01-01T00:00:00.000Z''" "\<lambda>a b. 0" snapshot_surface]
  have 3: "error_tokenPath (DuplicateTokenPath surface_duplicate)
             = Some (dup_tokenPath surface_duplicate)"
    and 4: "error_requestedModeName (DuplicateTokenPath surface_duplicate) = None"
    by force+
  from 1 2 3 4 show ?thesis by (simp add: surface_duplicate_def)
qed

text \<open>
  The claim as stated, for every error entry alike, fails for the one error of the
  collision scenario: it has no requested mode.
\<close>

theorem duplicate_error_has_no_mode:
  "em_errors (buildExportModel ''2026-01-01T00:00:00.000Z'' (\<lambda>a b. 0) snapshot_surface)
     = [DuplicateTokenPath surface_duplicate]
   \<and> error_requestedModeName (DuplicateTokenPath surface_duplicate) = None"
  using surface_scenario by (simp add: error_requestedModeName_def)

section \<open>Determinism and key order\<close>

lemma index_val_snoc: "index_val (xs @ [c]) = 10 * index_val xs + digit_val c"
  by (simp add: index_val_def digit_val_def)

lemma digit_val_range: "is_digit c \<Longrightarrow> 0 \<le> digit_val c \<and> digit_val c < 10"
proof -
  assume "is_digit c"
  then have "48 \<le> (of_char c :: nat)" "(of_char c :: nat) \<le> 57" by (simp_all add: is_digit_def)
  moreover have "(of_char c :: int) = int (of_char c :: nat)" by (simp add: of_nat_of_char)
  ultimately show ?thesis unfolding digit_val_def by linarith
qed

lemma digit_val_inj: "digit_val c = digit_val d \<Longrightarrow> c = d"
proof -
  assume "digit_val c = digit_val d"
  then have "(of_char c :: int) = of_char d" by (simp add: digit_val_def)
  then show ?thesis by simp
qed

lemma index_val_same_length:
  "length xs = length ys \<Longrightarrow> list_all is_digit xs \<Longrightarrow> list_all is_digit ys \<Longrightarrow>
   index_val xs = index_val ys \<Longrightarrow> xs = ys"
proof (induction xs arbitrary: ys rule: rev_induct)
  case Nil
  then show ?case by simp
next
  case (snoc c xs)
  then obtain d zs where ys: "ys = zs @ [d]"
    by (cases ys rule: rev_cases) auto
  from snoc.prems ys have len: "length xs = length zs"
    and dig: "list_all is_digit xs" "list_all is_digit zs" "is_digit c" "is_digit d"
    and eq: "10 * index_val xs + digit_val c = 10 * index_val zs + digit_val d"
    by (simp_all add: index_val_snoc)
  from digit_val_range [OF dig(3)] digit_val_range [OF dig(4)] eq
  have "digit_val c = digit_val d" "index_val xs = index_val zs" by presburger+
  then have "c = d" "xs = zs"
    using digit_val_inj snoc.IH [OF len dig(1,2)] by blast+
  with ys show ?case by simp
qed

lemma index_val_bounds:
  "xs \<noteq> [] \<Longrightarrow> list_all is_digit xs \<Longrightarrow> hd xs \<noteq> CHR ''0'' \<Longrightarrow>
   10 ^ (length xs - 1) \<le> index_val xs \<and> index_val xs < 10 ^ length xs"
proof (induction xs rule: rev_induct)
  case Nil
  then show ?case by simp
next
  case (snoc c xs)
  have c: "0 \<le> digit_val c" "digit_val c < 10"
    using snoc.prems(2) digit_val_range [of c] by simp_all
  show ?case
  proof (cases "xs = []")
    case True
    have "digit_val c \<noteq> 0"
    proof
      assume "digit_val c = 0"
      then have "digit_val c = digit_val (CHR ''0'')" by (simp add: digit_val_def)
      then have "c = CHR ''0''" by (rule digit_val_inj)
      with snoc.prems(3) True show False by simp
    qed
    with c have "1 \<le> digit_val c" by simp
    moreover have "index_val [c] = digit_val c" by (simp add: index_val_def digit_val_def)
    ultimately show ?thesis using c True by simp
  next
    case False
    with snoc have IH: "10 ^ (length xs - 1) \<le> index_val xs" "index_val xs < 10 ^ length xs"
      by simp_all
    from False have len: "length xs = Suc (length xs - 1)" by (cases xs) simp_all
    have "10 ^ length xs \<le> 10 * index_val xs"
      using IH(1) by (subst len) simp
    moreover have "10 * index_val xs + 10 \<le> 10 * 10 ^ length xs"
      using IH(2) by simp
    ultimately show ?thesis using c by (simp add: index_val_snoc)
  qed
qed

lemma array_index_digits: "is_array_index k \<Longrightarrow> k \<noteq> [] \<and> list_all is_digit k"
  by (cases k) (simp_all add: is_array_index_def)

lemma array_index_zero: "is_array_index k \<Longrightarrow> hd k = CHR ''0'' \<Longrightarrow> k = ''0''"
  by (cases k) (simp_all add: is_array_index_def split: if_splits)

lemma index_val_inj:
  assumes "is_array_index k" "is_array_index k'" "index_val k = index_val k'"
  shows "k = k'"
proof -
  from assms(1,2) have d: "k \<noteq> []" "list_all is_digit k" "k' \<noteq> []" "list_all is_digit k'"
    by (simp_all add: array_index_digits)
  have zero: "index_val ''0'' = 0" by (simp add: index_val_def)
  have pos: "0 < index_val x" if "is_array_index x" "hd x \<noteq> CHR ''0''" for x
  proof -
    from that have "10 ^ (length x - 1) \<le> index_val x"
      using index_val_bounds [of x] array_index_digits [of x] by simp
    moreover have "(0::int) < 10 ^ (length x - 1)" by simp
    ultimately show ?thesis by linarith
  qed
  show ?thesis
  proof (cases "hd k = CHR ''0''")
    case True
    then have k: "k = ''0''" using assms(1) by (rule array_index_zero [rotated])
    show ?thesis
    proof (cases "hd k' = CHR ''0''")
      case True
      then have "k' = ''0''" using assms(2) by (rule array_index_zero [rotated])
      with k show ?thesis by simp
    next
      case False
      with pos [OF assms(2)] assms(3) k zero show ?thesis by simp
    qed
  next
    case nz: False
    show ?thesis
    proof (cases "hd k' = CHR ''0''")
      case True
      then have "k' = ''0''" using assms(2) by (rule array_index_zero [rotated])
      with pos [OF assms(1) nz] assms(3) zero show ?thesis by simp
    next
      case False
      have b: "10 ^ (length k - 1) \<le> index_val k" "index_val k < 10 ^ length k"
        using index_val_bounds [OF d(1,2) nz] by simp_all
      have b': "10 ^ (length k' - 1) \<le> index_val k'" "index_val k' < 10 ^ length k'"
        using index_val_bounds [OF d(3,4) False] by simp_all
      have "length k = length k'"
      proof (rule ccontr)
        assume "length k \<noteq> length k'"
        then consider "length k < length k'" | "length k' < length k" by linarith
        then show False
        proof cases
          case 1
          then have "length k \<le> length k' - 1" by simp
          then have "(10::int) ^ length k \<le> 10 ^ (length k' - 1)"
            by (intro power_increasing) simp_all
          with b(2) b'(1) assms(3) show False by simp
        next
          case 2
          then have "length k' \<le> length k - 1" by simp
          then have "(10::int) ^ length k' \<le> 10 ^ (length k - 1)"
            by (intro power_increasing) simp_all
          with b'(2) b(1) assms(3) show False by simp
        qed
      qed
      then show ?thesis using d(2,4) assms(3) by (rule index_val_same_length)
    qed
  qed
qed

lemma indices_first_Cons:
  "(x # xs = filter is_array_index (x # xs) @ filter (\<lambda>k. \<not> is_array_index k) (x # xs))
     \<longleftrightarrow> (if is_array_index x
          then xs = filter is_array_index xs @ filter (\<lambda>k. \<not> is_array_index k) xs
          else filter is_array_index xs = [])"
proof (cases "is_array_index x")
  case True
  then show ?thesis by simp
next
  case False
  show ?thesis
  proof
    assume eq: "x # xs = filter is_array_index (x # xs) @ filter (\<lambda>k. \<not> is_array_index k) (x # xs)"
    show "if is_array_index x
          then xs = filter is_array_index xs @ filter (\<lambda>k. \<not> is_array_index k) xs
          else filter is_array_index xs = []"
    proof (cases "filter is_array_index xs")
      case Nil
      with False show ?thesis by simp
    next
      case (Cons y ys)
      then have "is_array_index y" by (metis filter_eq_ConsD)
      moreover from eq False Cons have "x = y" by simp
      ultimately show ?thesis using False by simp
    qed
  next
    assume "if is_array_index x
          then xs = filter is_array_index xs @ filter (\<lambda>k. \<not> is_array_index k) xs
          else filter is_array_index xs = []"
    with False have none: "filter is_array_index xs = []" by simp
    then have "filter (\<lambda>k. \<not> is_array_index k) xs = xs"
      by (simp add: filter_empty_conv filter_id_conv)
    with none False
    show "x # xs = filter is_array_index (x # xs) @ filter (\<lambda>k. \<not> is_array_index k) (x # xs)"
      by simp
  qed
qed

lemma own_keys_Nil [simp]: "own_keys []"
  by (simp add: own_keys_def)

lemma own_keys_Cons:
  "own_keys (x # xs) \<longleftrightarrow>
     x \<notin> set xs \<and>
     (if is_array_index x
      then own_keys xs \<and> (\<forall>y\<in>set xs. is_array_index y \<longrightarrow> index_val x \<le> index_val y)
      else distinct xs \<and> filter is_array_index xs = [])"
  unfolding own_keys_def indices_first_Cons
  by (auto simp: filter_empty_conv)

lemma own_keys_append_other:
  "own_keys ks \<Longrightarrow> k \<notin> set ks \<Longrightarrow> \<not> is_array_index k \<Longrightarrow> own_keys (ks @ [k])"
  unfolding own_keys_def by auto

lemma obj_keys_Cons [simp]: "obj_keys (p # ps) = fst p # obj_keys ps"
  by (simp add: obj_keys_def)

lemma obj_keys_append [simp]: "obj_keys (ps @ qs) = obj_keys ps @ obj_keys qs"
  by (simp add: obj_keys_def)

lemma own_keys_insert_index:
  "own_keys (obj_keys ob) \<Longrightarrow> k \<notin> set (obj_keys ob) \<Longrightarrow> is_array_index k \<Longrightarrow>
   own_keys (obj_keys (obj_insert_index k v ob))"
proof (induction ob)
  case Nil
  then show ?case by (simp add: own_keys_Cons)
next
  case (Cons p ps)
  show ?case
  proof (cases "is_array_index (fst p) \<and> index_val (fst p) < index_val k")
    case True
    with Cons.prems have tl: "own_keys (obj_keys ps)"
      and le: "\<forall>y\<in>set (obj_keys ps). is_array_index y \<longrightarrow> index_val (fst p) \<le> index_val y"
      and new: "fst p \<notin> set (obj_keys ps)" "k \<noteq> fst p" "k \<notin> set (obj_keys ps)"
      by (auto simp: own_keys_Cons)
    have "own_keys (obj_keys (obj_insert_index k v ps))"
      using tl new(3) Cons.prems(3) by (rule Cons.IH)
    with True le new show ?thesis
      by (auto simp: own_keys_Cons set_obj_keys_insert_index)
  next
    case False
    show ?thesis
    proof (cases "is_array_index (fst p)")
      case True
      with False have "index_val k \<le> index_val (fst p)" by simp
      with True Cons.prems False show ?thesis
        by (fastforce simp: own_keys_Cons)
    next
      case nidx: False
      with Cons.prems False show ?thesis
        by (auto simp: own_keys_Cons filter_empty_conv)
    qed
  qed
qed

lemma own_keys_obj_set: "own_keys (obj_keys ob) \<Longrightarrow> own_keys (obj_keys (obj_set ob k v))"
  by (simp add: obj_set_def obj_keys_replace own_keys_insert_index own_keys_append_other)

lemma others_insert_index:
  "is_array_index k \<Longrightarrow>
   filter (\<lambda>x. \<not> is_array_index x) (obj_keys (obj_insert_index k v ob))
     = filter (\<lambda>x. \<not> is_array_index x) (obj_keys ob)"
  by (induction ob) auto

lemma others_obj_set:
  "filter (\<lambda>x. \<not> is_array_index x) (obj_keys (obj_set ob k v))
     = (if k \<in> set (obj_keys ob) \<or> is_array_index k
        then filter (\<lambda>x. \<not> is_array_index x) (obj_keys ob)
        else filter (\<lambda>x. \<not> is_array_index x) (obj_keys ob) @ [k])"
  by (simp add: obj_set_def obj_keys_replace others_insert_index)


lemma key_order_own: "key_order ks \<longleftrightarrow> own_keys ks \<and> sorted_wrt (<) (filter (\<lambda>k. \<not> is_array_index k) ks)"
  by (auto simp: key_order_def own_keys_def)

lemma fold_key_order:
  assumes "sorted ks" "own_keys (obj_keys acc)"
    and "sorted_wrt (<) (filter (\<lambda>k. \<not> is_array_index k) (obj_keys acc))"
    and "\<forall>x\<in>set (obj_keys acc). \<forall>y\<in>set ks. x \<le> y"
  shows "key_order (obj_keys
           (fold (\<lambda>k out. case obj_get ob k of None \<Rightarrow> out | Some v \<Rightarrow> obj_set out k (f v)) ks acc))"
  using assms
proof (induction ks arbitrary: acc)
  case Nil
  then show ?case by (simp add: key_order_own)
next
  case (Cons k ks)
  from Cons.prems(1) have sorted: "sorted ks" and least: "\<forall>y\<in>set ks. k \<le> y" by simp_all
  show ?case
  proof (cases "obj_get ob k")
    case None
    have "key_order (obj_keys
            (fold (\<lambda>k out. case obj_get ob k of None \<Rightarrow> out | Some v \<Rightarrow> obj_set out k (f v)) ks acc))"
      using sorted Cons.prems(2,3,4) by (intro Cons.IH) simp_all
    with None show ?thesis by simp
  next
    case (Some v)
    let ?acc = "obj_set acc k (f v)"
    have own: "own_keys (obj_keys ?acc)" using Cons.prems(2) by (rule own_keys_obj_set)
    have before: "x < k" if "x \<in> set (obj_keys acc)" "k \<notin> set (obj_keys acc)" for x
    proof -
      from that Cons.prems(4) have "x \<le> k" "x \<noteq> k" by auto
      then show ?thesis by simp
    qed
    have others: "sorted_wrt (<) (filter (\<lambda>k. \<not> is_array_index k) (obj_keys ?acc))"
      using Cons.prems(3) before by (auto simp: others_obj_set sorted_wrt_append)
    have bound: "\<forall>x\<in>set (obj_keys ?acc). \<forall>y\<in>set ks. x \<le> y"
      using Cons.prems(4) least by (auto simp: set_obj_keys_set)
    have "key_order (obj_keys
            (fold (\<lambda>k out. case obj_get ob k of None \<Rightarrow> out | Some v \<Rightarrow> obj_set out k (f v)) ks ?acc))"
      using sorted own others bound by (rule Cons.IH)
    with Some show ?thesis by simp
  qed
qed

lemma key_order_sortObjectKeys: "key_order (obj_keys (sortObjectKeys f ob))"
  unfolding sortObjectKeys_def by (rule fold_key_order) simp_all

lemma entries_sortObjectKeys:
  assumes "(k, w) \<in> set (sortObjectKeys f ob)"
  shows "\<exists>v. w = f v"
proof -
  have "distinct (map fst (sortObjectKeys f ob))"
    using key_order_sortObjectKeys [of f ob] by (simp add: key_order_def obj_keys_def)
  with assms have "obj_get (sortObjectKeys f ob) k = Some w"
    by (simp add: obj_get_def)
  then show ?thesis by (auto simp: obj_get_sortObjectKeys)
qed

lemma nested_key_order:
  "list_all (\<lambda>(p, e). key_order (obj_keys e)) (sortObjectKeys (sortObjectKeys f) ob)"
  by (auto simp: list_all_iff dest!: entries_sortObjectKeys intro: key_order_sortObjectKeys)

lemma key_order_unique:
  assumes "key_order ks" "key_order ks'" "set ks = set ks'"
  shows "ks = ks'"
proof -
  let ?I = "filter is_array_index ks" and ?I' = "filter is_array_index ks'"
  let ?N = "filter (\<lambda>k. \<not> is_array_index k) ks" and ?N' = "filter (\<lambda>k. \<not> is_array_index k) ks'"
  have inj: "inj_on index_val (set ?I \<union> set ?I')"
    by (rule inj_onI) (auto intro: index_val_inj)
  have "distinct ?I" "distinct ?I'" using assms(1,2) by (simp_all add: key_order_def)
  then have dI: "distinct (map index_val ?I)" "distinct (map index_val ?I')"
    using inj by (simp_all add: distinct_map inj_on_Un)
  have sI: "sorted (map index_val ?I)" "sorted (map index_val ?I')"
    using assms(1,2) by (simp_all add: key_order_def)
  have "set (map index_val ?I) = set (map index_val ?I')"
    using assms(3) by simp
  with sI dI have "map index_val ?I = map index_val ?I'"
    by (intro sorted_distinct_set_unique)
  with inj have I: "?I = ?I'" by (simp add: inj_on_map_eq_map)
  have "sorted_wrt (<) ?N" "sorted_wrt (<) ?N'" using assms(1,2) by (simp_all add: key_order_def)
  then have "sorted ?N" "distinct ?N" "sorted ?N'" "distinct ?N'"
    by (simp_all add: strict_sorted_iff)
  moreover have "set ?N = set ?N'" using assms(3) by simp
  ultimately have N: "?N = ?N'" by (intro sorted_distinct_set_unique)
  have "ks = ?I @ ?N" "ks' = ?I' @ ?N'" using assms(1,2) by (simp_all add: key_order_def)
  with I N show ?thesis by simp
qed

lemma same_keys_same_values:
  "map fst xs = map fst ys \<Longrightarrow> distinct (map fst xs) \<Longrightarrow> \<forall>k. map_of xs k = map_of ys k \<Longrightarrow> xs = ys"
proof (induction xs arbitrary: ys)
  case Nil
  then show ?case by simp
next
  case (Cons x xs)
  then obtain y ys' where ys: "ys = y # ys'" by (cases ys) auto
  with Cons.prems have k: "fst x = fst y" and keys: "map fst xs = map fst ys'"
    and d: "distinct (map fst xs)" "fst x \<notin> set (map fst xs)" by auto
  from Cons.prems(3) ys k have "snd x = snd y"
    by (metis fun_upd_same map_of.simps(2) option.inject)
  with k have xy: "x = y" by (simp add: prod_eq_iff)
  have "map_of xs k' = map_of ys' k'" for k'
  proof (cases "k' = fst x")
    case True
    with d(2) have "k' \<notin> set (map fst xs)" by simp
    moreover from this keys have "k' \<notin> set (map fst ys')" by simp
    ultimately have "map_of xs k' = None" "map_of ys' k' = None"
      by (simp_all add: map_of_eq_None_iff)
    then show ?thesis by simp
  next
    case False
    with Cons.prems(3) [rule_format, of k'] ys k show ?thesis by simp
  qed
  with keys d(1) have "xs = ys'" by (intro Cons.IH) simp_all
  with xy ys show ?case by simp
qed

lemma sortObjectKeys_content:
  assumes "\<forall>k. map_option f (obj_get ob k) = map_option f' (obj_get ob' k)"
  shows "sortObjectKeys f ob = sortObjectKeys f' ob'"
proof (rule same_keys_same_values)
  have "set (obj_keys ob) = {k. obj_get ob k \<noteq> None}" by (auto simp: obj_get_None_iff)
  also have "\<dots> = {k. obj_get ob' k \<noteq> None}"
    using assms by (metis option.map_disc_iff)
  also have "\<dots> = set (obj_keys ob')" by (auto simp: obj_get_None_iff)
  finally have "set (obj_keys (sortObjectKeys f ob)) = set (obj_keys (sortObjectKeys f' ob'))"
    by (simp add: set_keys_sortObjectKeys)
  then have "obj_keys (sortObjectKeys f ob) = obj_keys (sortObjectKeys f' ob')"
    by (intro key_order_unique key_order_sortObjectKeys)
  then show "map fst (sortObjectKeys f ob) = map fst (sortObjectKeys f' ob')"
    by (simp add: obj_keys_def)
  show "distinct (map fst (sortObjectKeys f ob))"
    using key_order_sortObjectKeys [of f ob] by (simp add: key_order_def obj_keys_def)
  show "\<forall>k. map_of (sortObjectKeys f ob) k = map_of (sortObjectKeys f' ob') k"
    using assms obj_get_sortObjectKeys [of f ob] obj_get_sortObjectKeys [of f' ob']
    by (simp add: obj_get_def)
qed

lemma sortObjectKeys_nested_content:
  assumes "\<forall>p. rel_option (\<lambda>e e'. \<forall>m. obj_get e m = obj_get e' m) (obj_get ob p) (obj_get ob' p)"
  shows "sortObjectKeys (sortObjectKeys (\<lambda>v. v)) ob = sortObjectKeys (sortObjectKeys (\<lambda>v. v)) ob'"
proof (rule sortObjectKeys_content, rule allI)
  fix p
  from assms have r: "rel_option (\<lambda>e e'. \<forall>m. obj_get e m = obj_get e' m) (obj_get ob p) (obj_get ob' p)"
    by simp
  show "map_option (sortObjectKeys (\<lambda>v. v)) (obj_get ob p)
          = map_option (sortObjectKeys (\<lambda>v. v)) (obj_get ob' p)"
  proof (cases "obj_get ob p")
    case None
    with r show ?thesis by (cases "obj_get ob' p") simp_all
  next
    case (Some e)
    with r obtain e' where e': "obj_get ob' p = Some e'" "\<forall>m. obj_get e m = obj_get e' m"
      by (cases "obj_get ob' p") simp_all
    from e'(2) have "sortObjectKeys (\<lambda>v. v) e = sortObjectKeys (\<lambda>v. v) e'"
      by (intro sortObjectKeys_content) simp
    with Some e'(1) show ?thesis by simp
  qed
qed

lemma obj_get_sorted_leaf:
  "Option.bind (obj_get (sortObjectKeys (sortObjectKeys (\<lambda>v. v)) ob) p) (\<lambda>e. obj_get e m)
     = Option.bind (obj_get ob p) (\<lambda>e. obj_get e m)"
  by (cases "obj_get ob p") (simp_all add: obj_get_sortObjectKeys option.map_ident)

text \<open>
  Claim C1, as amended. Two calls of the builder on the same snapshot give export models
  that differ at most in \<^verbatim>\<open>meta.exportedAt\<close>, the time of the call. In
  \<^verbatim>\<open>tokensRaw\<close> and \<^verbatim>\<open>tokensResolved\<close> every bucket and every entry lists its keys in
  the order of \<^const>\<open>key_order\<close>, of which a set of keys has only one; the values under the
  keys are those of the tables before sorting; and two tables of the same content, their
  keys created in any order, are sorted to the same table.
\<close>

theorem export_deterministic:
  "buildExportModel now' localeCompare collections
     = (buildExportModel now localeCompare collections)\<lparr>em_exportedAt := now'\<rparr>
   \<and> key_order (obj_keys (em_tokensRaw (buildExportModel now localeCompare collections) bucket))
   \<and> list_all (\<lambda>(p, e). key_order (obj_keys e))
        (em_tokensRaw (buildExportModel now localeCompare collections) bucket)
   \<and> key_order (obj_keys (em_tokensResolved (buildExportModel now localeCompare collections) bucket))
   \<and> list_all (\<lambda>(p, e). key_order (obj_keys e))
        (em_tokensResolved (buildExportModel now localeCompare collections) bucket)
   \<and> Option.bind (obj_get (em_tokensRaw (buildExportModel now localeCompare collections) bucket) p)
        (\<lambda>e. obj_get e m)
     = Option.bind (obj_get (b_tokensRaw (classify collections) bucket) p) (\<lambda>e. obj_get e m)
   \<and> (key_order ks \<longrightarrow> key_order ks' \<longrightarrow> set ks = set ks' \<longrightarrow> ks = ks')
   \<and> em_tokensRaw (buildExportModel now localeCompare collections) bucket
     = sortObjectKeys (sortObjectKeys (\<lambda>v. v)) (b_tokensRaw (classify collections) bucket)
   \<and> ((\<forall>p. rel_option (\<lambda>e e'. \<forall>m. obj_get e m = obj_get e' m) (obj_get ob p) (obj_get ob' p))
        \<longrightarrow> sortObjectKeys (sortObjectKeys (\<lambda>v. v)) ob
            = sortObjectKeys (sortObjectKeys (\<lambda>v. v)) (ob' :: TokenValueRaw obj obj))"
proof (intro conjI impI)
  show "buildExportModel now' localeCompare collections
          = (buildExportModel now localeCompare collections)\<lparr>em_exportedAt := now'\<rparr>"
    by (simp add: buildExportModel_def Let_def split_beta)
  show "ks = ks'" if "key_order ks" "key_order ks'" "set ks = set ks'"
    using that by (rule key_order_unique)
  show "sortObjectKeys (sortObjectKeys (\<lambda>v. v)) ob = sortObjectKeys (sortObjectKeys (\<lambda>v. v)) ob'"
    if "\<forall>p. rel_option (\<lambda>e e'. \<forall>m. obj_get e m = obj_get e' m) (obj_get ob p) (obj_get ob' p)"
    using that by (rule sortObjectKeys_nested_content)
  show "em_tokensRaw (buildExportModel now localeCompare collections) bucket
     = sortObjectKeys (sortObjectKeys (\<lambda>v. v)) (b_tokensRaw (classify collections) bucket)"
    by (rule em_tokensRaw_eq)
qed (simp_all only: em_tokensRaw_eq em_tokensResolved_eq key_order_sortObjectKeys nested_key_order
       obj_get_sorted_leaf)

theorem export_deterministic_witness:
  "key_order [''4'', ''8'', ''16'', ''gutter.narrow'', ''gutter.wide'']
   \<and> em_exportedAt (buildExportModel ''2026-01-01T00:00:00.001Z'' (\<lambda>a b. 0) snapshot_steps)
       = ''2026-01-01T00:00:00.001Z''"
proof -
  note t = export_deterministic [where now' = "''2026-01-01T00:00:00.001Z''"
             and localeCompare = "\<lambda>a b. 0" and collections = snapshot_steps
             and now = "''2026-01-01T00:00:00.000Z''" and bucket = spacing]
  from t have "key_order (obj_keys (em_tokensRaw
          (buildExportModel ''2026-01-01T00:00:00.000Z'' (\<lambda>a b. 0) snapshot_steps) spacing))"
    by blast
  moreover from t have "buildExportModel ''2026-01-01T00:00:00.001Z'' (\<lambda>a b. 0) snapshot_steps
     = (buildExportModel ''2026-01-01T00:00:00.000Z'' (\<lambda>a b. 0) snapshot_steps)
         \<lparr>em_exportedAt := ''2026-01-01T00:00:00.001Z''\<rparr>"
    by blast
  ultimately show ?thesis using steps_scenario by simp
qed

text \<open>
  The claim as stated fails twice: the time of the call is part of the output, and keys
  that are array indices are listed by value (\<open>4, 8, 16\<close>) where sorting them as
  strings gives \<open>16, 4, 8\<close>.
\<close>

theorem export_differs_in_time:
  "buildExportModel ''2026-01-01T00:00:00.000Z'' (\<lambda>a b. 0) snapshot_steps
     \<noteq> buildExportModel ''2026-01-01T00:00:00.001Z'' (\<lambda>a b. 0) snapshot_steps
   \<and> obj_keys (em_tokensRaw (buildExportModel ''2026-01-01T00:00:00.000Z'' (\<lambda>a b. 0) snapshot_steps) spacing)
     = [''4'', ''8'', ''16'', ''gutter.narrow'', ''gutter.wide'']
   \<and> sort (obj_keys (em_tokensRaw (buildExportModel ''2026-01-01T00:00:00.000Z'' (\<lambda>a b. 0) snapshot_steps) spacing))
     = [''16'', ''4'', ''8'', ''gutter.narrow'', ''gutter.wide'']"
proof -
  have "em_exportedAt (buildExportModel ''2026-01-01T00:00:00.000Z'' (\<lambda>a b. 0) snapshot_steps)
          \<noteq> em_exportedAt (buildExportModel ''2026-01-01T00:00:00.001Z'' (\<lambda>a b. 0) snapshot_steps)"
    by (simp add: buildExportModel_def Let_def split_beta)
  then have "buildExportModel ''2026-01-01T00:00:00.000Z'' (\<lambda>a b. 0) snapshot_steps
     \<noteq> buildExportModel ''2026-01-01T00:00:00.001Z'' (\<lambda>a b. 0) snapshot_steps"
    by metis
  with steps_scenario show ?thesis by simp
qed

end
